theory Spec2Isabelle
  imports Main "HOL-Library.Sublist"
begin

section \<open>Go's \<open>strings\<close> package, as far as \<open>main.go\<close> uses it\<close>

text \<open>
  A Go string is a sequence of bytes, here a \<open>string\<close> (a \<open>char list\<close>).
  \<open>strings.ToUpper\<close> and \<open>strings.TrimSpace\<close> each have a path for ASCII, written out in
  the library's code and modelled here as it is written, and hand every other string to
  the Unicode tables of the standard library: \<open>strings.Map(unicode.ToUpper, s)\<close>,
  \<open>strings.TrimFunc(s, unicode.IsSpace)\<close> and \<open>strings.TrimRightFunc(s, unicode.IsSpace)\<close>.
  The tables are not part of the program. The three functions stand for them with nothing
  said about their values, so that whatever is proved holds for every table they might be.
\<close>

definition MapUnicodeToUpper :: "string \<Rightarrow> string" where
  "MapUnicodeToUpper = undefined"

definition TrimFuncUnicodeIsSpace :: "string \<Rightarrow> string" where
  "TrimFuncUnicodeIsSpace = undefined"

definition TrimRightFuncUnicodeIsSpace :: "string \<Rightarrow> string" where
  "TrimRightFuncUnicodeIsSpace = undefined"

text \<open>\<open>utf8.RuneSelf\<close> is \<open>0x80\<close>: a string is ASCII when every byte is below it.\<close>

definition isASCII :: "string \<Rightarrow> bool" where
  "isASCII s = (\<forall>c\<in>set s. (of_char c :: nat) < 128)"

definition upper_char :: "char \<Rightarrow> char" where
  "upper_char c =
     (if 97 \<le> (of_char c :: nat) \<and> (of_char c :: nat) \<le> 122
      then char_of ((of_char c :: nat) - 32) else c)"

text \<open>
  \<open>strings.ToUpper\<close>: on an ASCII string the bytes \<open>'a'..'z'\<close> lose \<open>'a' - 'A'\<close>
  (\<open>asciiUpper\<close>); any other string goes through the Unicode tables.
\<close>

definition asciiUpper :: "string \<Rightarrow> string" where
  "asciiUpper s = map upper_char s"

definition ToUpper :: "string \<Rightarrow> string" where
  "ToUpper s = (if isASCII s then asciiUpper s else MapUnicodeToUpper s)"

text \<open>
  \<open>strings.TrimSpace\<close>: \<open>asciiSpace\<close> marks tab, line feed, vertical tab, form feed,
  carriage return and space. The first loop moves \<open>start\<close> over such bytes and returns
  \<open>TrimFunc(s[start:], unicode.IsSpace)\<close> when it meets a byte from \<open>0x80\<close> on; the second
  loop moves \<open>stop\<close> down from the end in the same way and returns
  \<open>TrimRightFunc(s[start:stop], unicode.IsSpace)\<close> at such a byte; otherwise the result is
  \<open>s[start:stop]\<close>.
\<close>

definition isSpace :: "char \<Rightarrow> bool" where
  "isSpace c =
     ((9 \<le> (of_char c :: nat) \<and> (of_char c :: nat) \<le> 13) \<or> (of_char c :: nat) = 32)"

definition TrimSpace :: "string \<Rightarrow> string" where
  "TrimSpace s =
     (let fromStart = dropWhile isSpace s
      in if fromStart \<noteq> [] \<and> 128 \<le> (of_char (hd fromStart) :: nat)
           then TrimFuncUnicodeIsSpace fromStart
         else (let toStop = dropWhile isSpace (rev fromStart)
               in if toStop \<noteq> [] \<and> 128 \<le> (of_char (hd toStop) :: nat)
                    then TrimRightFuncUnicodeIsSpace (rev toStop)
                  else rev toStop))"

definition HasPrefix :: "string \<Rightarrow> string \<Rightarrow> bool" where
  "HasPrefix s p = prefix p s"

definition HasSuffix :: "string \<Rightarrow> string \<Rightarrow> bool" where
  "HasSuffix s p = suffix p s"

definition TrimPrefix :: "string \<Rightarrow> string \<Rightarrow> string" where
  "TrimPrefix s p = (if HasPrefix s p then drop (length p) s else s)"

definition TrimSuffix :: "string \<Rightarrow> string \<Rightarrow> string" where
  "TrimSuffix s p = (if HasSuffix s p then take (length s - length p) s else s)"

definition Contains :: "string \<Rightarrow> string \<Rightarrow> bool" where
  "Contains s sub = sublist sub s"

text \<open>
  \<open>strings.Split(s, sep)\<close> for a separator of one byte, the only way the program calls it:
  the pieces between the separators, one more than there are separators, so that the empty
  string splits into one empty piece.
\<close>

fun Split :: "string \<Rightarrow> char \<Rightarrow> string list" where
  "Split [] c = [[]]"
| "Split (x # xs) c =
     (if x = c then [] # Split xs c
      else (case Split xs c of [] \<Rightarrow> [[x]] | y # ys \<Rightarrow> (x # y) # ys))"

fun Join :: "string list \<Rightarrow> string \<Rightarrow> string" where
  "Join [] sep = []"
| "Join [x] sep = x"
| "Join (x # y # ys) sep = x @ sep @ Join (y # ys) sep"

section \<open>Normalising table names\<close>

text \<open>\<open>log.Fatalln\<close> ends the whole process; the two calls are the two values of \<open>fatal\<close>.\<close>

datatype fatal = MissingTableName | UnhandledTableNameFormat string

definition removeBrackets :: "string \<Rightarrow> string" where
  "removeBrackets s = TrimPrefix (TrimSuffix s '']'') ''[''"

definition normalizeTableName :: "string \<Rightarrow> fatal + string" where
  "normalizeTableName s =
     (let elems = Split (ToUpper (TrimSpace s)) CHR ''.''
      in if length elems = 0 then Inl MissingTableName
         else if length elems = 1 \<or> length elems = 2
           then Inr (removeBrackets (elems ! (length elems - 1)))
         else if length elems = 3
           then (let normalizedElems = map removeBrackets elems
                 in if normalizedElems ! 0 = ''BRS'' then Inr (normalizedElems ! 2)
                    else Inr (Join normalizedElems ''.''))
         else Inl (UnhandledTableNameFormat s))"

section \<open>The listener\<close>

text \<open>
  \<open>SprocInfo\<close> holds three Go maps of type \<open>map[string]bool\<close> in which only \<open>true\<close> is ever
  stored, so that a lookup, of the value or of the presence of a key, asks whether the key
  is there: three sets of strings. The package variables \<open>whitelist\<close> and \<open>portfolioKeys\<close>,
  filled once by \<open>getSprocs\<close> before the first routine is parsed, are sets of the same kind
  and are passed as arguments.
\<close>

record SprocInfo =
  Name :: string
  Tables :: "string set"
  Aliases :: "string set"
  Portfolios :: "string set"

definition NewSprocInfo :: SprocInfo where
  "NewSprocInfo = \<lparr>Name = [], Tables = {}, Aliases = {}, Portfolios = {}\<rparr>"

definition EnterTable_name :: "SprocInfo \<Rightarrow> string \<Rightarrow> fatal + SprocInfo" where
  "EnterTable_name info text =
     (case normalizeTableName (TrimSpace text) of
        Inl f \<Rightarrow> Inl f
      | Inr n \<Rightarrow> Inr (if length n > 0 then info\<lparr>Tables := insert n (Tables info)\<rparr> else info))"

definition EnterSimple_id :: "string set \<Rightarrow> SprocInfo \<Rightarrow> string \<Rightarrow> SprocInfo" where
  "EnterSimple_id portfolioKeys info text =
     (let id0 = TrimSpace text
      in if id0 \<in> portfolioKeys then info\<lparr>Portfolios := insert id0 (Portfolios info)\<rparr>
         else info)"

text \<open>
  \<open>EnterConstant\<close> assigns to its variable \<open>id\<close> three times: \<open>id0\<close> is the literal without
  its quotes, \<open>id1\<close> is what the suffix-wildcard block leaves in \<open>id\<close>, and the
  prefix-wildcard block tests and trims \<open>id1\<close>. Each \<open>for k := range portfolioKeys\<close> loop
  adds the keys that pass its test.
\<close>

definition EnterConstant :: "string set \<Rightarrow> SprocInfo \<Rightarrow> string \<Rightarrow> SprocInfo" where
  "EnterConstant portfolioKeys info text =
     (let id0 = TrimSuffix (TrimPrefix (TrimSpace text) [CHR 0x27]) [CHR 0x27];
          info1 = (if id0 \<in> portfolioKeys
                   then info\<lparr>Portfolios := insert id0 (Portfolios info)\<rparr> else info);
          id1 = (if HasSuffix id0 ''%'' then TrimSuffix id0 ''%'' else id0);
          info2 = (if HasSuffix id0 ''%''
                   then info1\<lparr>Portfolios :=
                          Portfolios info1 \<union> {k \<in> portfolioKeys. HasPrefix k id1}\<rparr>
                   else info1)
      in if HasPrefix id1 ''%''
         then info2\<lparr>Portfolios :=
                Portfolios info2 \<union> {k \<in> portfolioKeys. HasSuffix k (TrimPrefix id1 ''%'')}\<rparr>
         else info2)"

definition EnterTable_alias :: "SprocInfo \<Rightarrow> string \<Rightarrow> fatal + SprocInfo" where
  "EnterTable_alias info text =
     (case normalizeTableName (TrimSpace text) of
        Inl f \<Rightarrow> Inl f
      | Inr n \<Rightarrow> Inr (if length n > 0 then info\<lparr>Aliases := insert (ToUpper n) (Aliases info)\<rparr>
                      else info))"

text \<open>
  The body of \<open>for table := range l.info.Tables\<close> in \<open>ExitTsql_file\<close>, run over the keys in
  the order the Go runtime happens to deliver them; \<open>seen\<close> is the local map of that name.
  The result is what is sent down \<open>tablesUsedCh\<close>, in order.
\<close>

fun tablesLoop :: "string set \<Rightarrow> string set \<Rightarrow> string set \<Rightarrow> string list \<Rightarrow> string list" where
  "tablesLoop whitelist aliases seen [] = []"
| "tablesLoop whitelist aliases seen (table # rest) =
     (if HasPrefix table ''#'' then tablesLoop whitelist aliases seen rest
      else if ToUpper table \<in> aliases then tablesLoop whitelist aliases seen rest
      else if ToUpper table \<in> seen then tablesLoop whitelist aliases seen rest
      else if Contains table ''.''
        then table # tablesLoop whitelist aliases (insert (ToUpper table) seen) rest
      else if ToUpper table \<notin> whitelist
        then tablesLoop whitelist aliases (insert (ToUpper table) seen) rest
      else table # tablesLoop whitelist aliases (insert (ToUpper table) seen) rest)"

text \<open>
  Go leaves the order of \<open>range\<close> over a map open. A run fixes it; the model takes it as
  two functions \<open>rangeT\<close> and \<open>rangeP\<close> from a map's key set to the sequence of keys
  delivered, and \<open>enumerates\<close> says what every such sequence satisfies: each key once.
\<close>

definition enumerates :: "string list \<Rightarrow> string set \<Rightarrow> bool" where
  "enumerates xs S = (distinct xs \<and> set xs = S)"

definition ExitTsql_file ::
  "string set \<Rightarrow> (string set \<Rightarrow> string list) \<Rightarrow> (string set \<Rightarrow> string list) \<Rightarrow> SprocInfo
     \<Rightarrow> string list \<times> string list" where
  "ExitTsql_file whitelist rangeT rangeP info =
     (tablesLoop whitelist (Aliases info) {} (rangeT (Tables info)), rangeP (Portfolios info))"

text \<open>
  The parser generated from the T-SQL grammar is not part of \<open>main.go\<close>. What the tree walk
  hands to the listener is the sequence of nodes entered, each with its text, and the
  syntax errors go to the error listener.
\<close>

datatype event = Table_name string | Simple_id string | Constant string | Table_alias string

definition enter :: "string set \<Rightarrow> SprocInfo \<Rightarrow> event \<Rightarrow> fatal + SprocInfo" where
  "enter portfolioKeys info e =
     (case e of
        Table_name text \<Rightarrow> EnterTable_name info text
      | Simple_id text \<Rightarrow> Inr (EnterSimple_id portfolioKeys info text)
      | Constant text \<Rightarrow> Inr (EnterConstant portfolioKeys info text)
      | Table_alias text \<Rightarrow> EnterTable_alias info text)"

fun walk :: "string set \<Rightarrow> SprocInfo \<Rightarrow> event list \<Rightarrow> fatal + SprocInfo" where
  "walk portfolioKeys info [] = Inr info"
| "walk portfolioKeys info (e # es) =
     (case enter portfolioKeys info e of
        Inl f \<Rightarrow> Inl f
      | Inr info' \<Rightarrow> walk portfolioKeys info' es)"

section \<open>Routines and workers\<close>

record keyValue =
  key :: string
  val :: string

text \<open>
  \<open>parseSproc\<close> returns the error messages, the tables and the portfolio codes of one
  routine. \<open>parser\<close> stands for lexing, parsing and flattening the tree of the routine's
  text: the events of the walk and the messages of the syntax errors.
\<close>

definition parseSproc ::
  "(string \<Rightarrow> event list \<times> string list) \<Rightarrow> string set \<Rightarrow> string set
     \<Rightarrow> (string set \<Rightarrow> string list) \<Rightarrow> (string set \<Rightarrow> string list) \<Rightarrow> keyValue
     \<Rightarrow> fatal + (string list \<times> string list \<times> string list)" where
  "parseSproc parser whitelist portfolioKeys rangeT rangeP sproc =
     (case parser (val sproc) of
        (events, errors) \<Rightarrow>
          (case walk portfolioKeys NewSprocInfo events of
             Inl f \<Rightarrow> Inl f
           | Inr info \<Rightarrow>
               (case ExitTsql_file whitelist rangeT rangeP info of
                  (tables, portfolios) \<Rightarrow> Inr (errors, tables, portfolios))))"

text \<open>
  The rows one worker sends for the tasks it takes from \<open>inCh\<close>: to \<open>errCh\<close>, to \<open>outCh\<close>
  (the tables) and to \<open>pCh\<close> (the portfolio codes), each row the routine's name and a value.
\<close>

type_synonym row = "string \<times> string"

fun handleSprocDetails ::
  "(string \<Rightarrow> event list \<times> string list) \<Rightarrow> string set \<Rightarrow> string set
     \<Rightarrow> (string set \<Rightarrow> string list) \<Rightarrow> (string set \<Rightarrow> string list) \<Rightarrow> keyValue list
     \<Rightarrow> fatal + (row list \<times> row list \<times> row list)" where
  "handleSprocDetails parser whitelist portfolioKeys rangeT rangeP [] = Inr ([], [], [])"
| "handleSprocDetails parser whitelist portfolioKeys rangeT rangeP (s # rest) =
     (case parseSproc parser whitelist portfolioKeys rangeT rangeP s of
        Inl f \<Rightarrow> Inl f
      | Inr (errors, tables, portfolios) \<Rightarrow>
          (case handleSprocDetails parser whitelist portfolioKeys rangeT rangeP rest of
             Inl f \<Rightarrow> Inl f
           | Inr (es, ts, ps) \<Rightarrow>
               Inr (map (Pair (key s)) errors @ es,
                    map (Pair (key s)) tables @ ts,
                    map (Pair (key s)) portfolios @ ps)))"









section \<open>Notions for the statements and proofs\<close>

text \<open>
  What \<open>strings.TrimSpace\<close> returns when neither loop meets a byte from \<open>0x80\<close> on:
  \<open>s[start:stop]\<close>.
\<close>

definition asciiTrim :: "string \<Rightarrow> string" where
  "asciiTrim s = rev (dropWhile isSpace (rev (dropWhile isSpace s)))"





section \<open>Facts about the string functions\<close>

lemma upper_char_lower:
  "97 \<le> (of_char c :: nat) \<Longrightarrow> (of_char c :: nat) \<le> 122
     \<Longrightarrow> upper_char c = char_of ((of_char c :: nat) - 32)"
  by (simp add: upper_char_def)

lemma upper_char_other:
  "\<not> (97 \<le> (of_char c :: nat) \<and> (of_char c :: nat) \<le> 122) \<Longrightarrow> upper_char c = c"
  unfolding upper_char_def by (rule if_not_P)

lemma of_char_upper_char:
  "(of_char (upper_char c) :: nat) =
     (if 97 \<le> (of_char c :: nat) \<and> (of_char c :: nat) \<le> 122 then of_char c - 32 else of_char c)"
proof (cases "97 \<le> (of_char c :: nat) \<and> (of_char c :: nat) \<le> 122")
  case True
  then have lt: "(of_char c :: nat) - 32 < 256" by linarith
  have "(of_char (char_of ((of_char c :: nat) - 32)) :: nat) = of_char c - 32"
    using lt by (simp only: of_char_of mod_less)
  then show ?thesis using True by (simp add: upper_char_lower)
next
  case False
  then show ?thesis by (auto simp add: upper_char_other)
qed

lemma upper_char_idem: "upper_char (upper_char c) = upper_char c"
proof -
  have "\<not> (97 \<le> (of_char (upper_char c) :: nat) \<and> (of_char (upper_char c) :: nat) \<le> 122)"
    unfolding of_char_upper_char by (cases "97 \<le> (of_char c :: nat) \<and> (of_char c :: nat) \<le> 122") auto
  then show ?thesis by (rule upper_char_other)
qed

lemma upper_char_eq_fixed:
  assumes "(of_char d :: nat) < 65 \<or> (90 < (of_char d :: nat) \<and> (of_char d :: nat) < 97) \<or> 122 < (of_char d :: nat)"
  shows "(upper_char c = d) = (c = d)"
proof -
  have "(of_char (upper_char c) = (of_char d :: nat)) = (of_char c = (of_char d :: nat))"
    unfolding of_char_upper_char using assms by auto
  then show ?thesis by (simp only: of_char_eq_iff)
qed

lemma upper_char_dot [simp]: "(upper_char c = CHR ''.'') = (c = CHR ''.'')"
  by (rule upper_char_eq_fixed) simp

lemma isSpace_upper_char [simp]: "isSpace (upper_char c) = isSpace c"
  unfolding isSpace_def of_char_upper_char by auto


lemma asciiUpper_idem [simp]: "asciiUpper (asciiUpper s) = asciiUpper s"
  by (simp add: asciiUpper_def upper_char_idem)

lemma asciiUpper_append [simp]: "asciiUpper (a @ b) = asciiUpper a @ asciiUpper b"
  by (simp add: asciiUpper_def)

lemma asciiUpper_Nil [simp]: "asciiUpper [] = []"
  by (simp add: asciiUpper_def)

lemma asciiUpper_Cons: "asciiUpper (x # xs) = upper_char x # asciiUpper xs"
  by (simp add: asciiUpper_def)

lemma length_asciiUpper [simp]: "length (asciiUpper s) = length s"
  by (simp add: asciiUpper_def)

lemma asciiUpper_take: "asciiUpper (take n s) = take n (asciiUpper s)"
  by (simp add: asciiUpper_def take_map)

lemma asciiUpper_drop: "asciiUpper (drop n s) = drop n (asciiUpper s)"
  by (simp add: asciiUpper_def drop_map)

lemma dropWhile_isSpace_asciiUpper:
  "dropWhile isSpace (asciiUpper s) = asciiUpper (dropWhile isSpace s)"
  by (induction s) (simp_all add: asciiUpper_def)

lemma rev_asciiUpper: "rev (asciiUpper s) = asciiUpper (rev s)"
  by (simp add: asciiUpper_def rev_map)

lemma asciiUpper_asciiTrim: "asciiUpper (asciiTrim s) = asciiTrim (asciiUpper s)"
  by (simp only: asciiTrim_def dropWhile_isSpace_asciiUpper rev_asciiUpper)

lemma dropWhile_idem: "dropWhile P (dropWhile P xs) = dropWhile P xs"
  by (induction xs) auto

lemma trim_right_keeps_head:
  assumes "\<not> P x"
  shows "\<exists>zs. rev (dropWhile P (rev (x # xs))) = x # zs"
proof (cases "\<forall>y\<in>set xs. P y")
  case True
  then show ?thesis using assms by (simp add: dropWhile_append)
next
  case False
  then have "rev (dropWhile P (rev (x # xs))) = x # rev (dropWhile P (rev xs))"
    by (simp add: dropWhile_append)
  then show ?thesis by blast
qed

lemma asciiTrim_Nil [simp]: "asciiTrim [] = []"
  by (simp add: asciiTrim_def)

lemma asciiTrim_idem [simp]: "asciiTrim (asciiTrim s) = asciiTrim s"
proof (cases "dropWhile isSpace s")
  case Nil
  have "asciiTrim s = []" unfolding asciiTrim_def Nil by simp
  then show ?thesis by simp
next
  case (Cons x xs)
  have "dropWhile isSpace s \<noteq> []" using Cons by simp
  then have "\<not> isSpace (hd (dropWhile isSpace s))" by (rule hd_dropWhile)
  then have nx: "\<not> isSpace x" unfolding Cons by simp
  from trim_right_keeps_head [of isSpace x xs, OF nx]
  obtain zs where r: "rev (dropWhile isSpace (rev (x # xs))) = x # zs" ..
  have t: "asciiTrim s = x # zs"
    unfolding asciiTrim_def Cons by (rule r)
  have d: "dropWhile isSpace (x # zs) = x # zs"
    using nx by simp
  have "rev (x # zs) = rev (rev (dropWhile isSpace (rev (x # xs))))"
    by (simp only: r)
  then have rr: "rev (x # zs) = dropWhile isSpace (rev (x # xs))"
    by (simp only: rev_rev_ident)
  have "asciiTrim (x # zs) = x # zs"
    unfolding asciiTrim_def d rr dropWhile_idem by (rule r)
  then show ?thesis unfolding t .
qed

lemma Split_not_Nil [simp]: "Split s c \<noteq> []"
  by (induction s) (auto split: list.splits)

lemma Split_Cons_other:
  "x \<noteq> c \<Longrightarrow> Split (x # xs) c = (x # hd (Split xs c)) # tl (Split xs c)"
  by (cases "Split xs c") simp_all

lemma length_Split: "length (Split s c) = Suc (count_list s c)"
  by (induction s) (auto split: list.splits)

lemma Split_no_sep: "c \<notin> set a \<Longrightarrow> Split a c = [a]"
  by (induction a) auto

lemma Split_append_sep: "c \<notin> set a \<Longrightarrow> Split (a @ c # r) c = a # Split r c"
  by (induction a) auto

lemma Split_segments_free: "e \<in> set (Split s c) \<Longrightarrow> c \<notin> set e"
proof (induction s arbitrary: e)
  case Nil
  then show ?case by simp
next
  case (Cons x xs)
  show ?case
  proof (cases "x = c")
    case True
    then show ?thesis using Cons by auto
  next
    case False
    obtain y ys where sp: "Split xs c = y # ys" by (cases "Split xs c") simp_all
    then have "e = x # y \<or> e \<in> set ys" using Cons.prems False by simp
    then show ?thesis using Cons.IH [of y] Cons.IH [of e] sp False by auto
  qed
qed

lemma Join_Split: "Join (Split s c) [c] = s"
proof (induction s)
  case Nil
  then show ?case by simp
next
  case (Cons x xs)
  obtain y ys where sp: "Split xs c = y # ys" by (cases "Split xs c") simp_all
  show ?case
  proof (cases "x = c")
    case True
    then show ?thesis using Cons sp by simp
  next
    case False
    then show ?thesis using Cons sp by (cases ys) simp_all
  qed
qed

lemma Split_asciiUpper_dot:
  "Split (asciiUpper s) CHR ''.'' = map asciiUpper (Split s CHR ''.'')"
proof (induction s)
  case Nil
  then show ?case by simp
next
  case (Cons x xs)
  obtain y ys where sp: "Split xs CHR ''.'' = y # ys"
    by (cases "Split xs CHR ''.''") simp_all
  show ?case using Cons sp by (simp add: asciiUpper_Cons)
qed

lemma count_list_dropWhile: "\<not> P c \<Longrightarrow> count_list (dropWhile P xs) c = count_list xs c"
  by (induction xs) auto

lemma count_list_rev' : "count_list (rev xs) c = count_list xs c"
  by (induction xs) auto

lemma count_list_asciiUpper_dot: "count_list (asciiUpper s) CHR ''.'' = count_list s CHR ''.''"
  by (induction s) (simp_all add: asciiUpper_Cons)

lemma not_isSpace_dot [simp]: "\<not> isSpace CHR ''.''"
  by (simp add: isSpace_def)

lemma count_list_asciiTrim_dot: "count_list (asciiTrim s) CHR ''.'' = count_list s CHR ''.''"
  by (simp add: asciiTrim_def count_list_rev' count_list_dropWhile)

lemma length_elems:
  "length (Split (asciiUpper (asciiTrim s)) CHR ''.'') = Suc (count_list s CHR ''.'')"
  by (simp add: length_Split count_list_asciiUpper_dot count_list_asciiTrim_dot)

lemma isASCII_simps [simp]:
  "isASCII []"
  "isASCII (x # xs) = ((of_char x :: nat) < 128 \<and> isASCII xs)"
  "isASCII (a @ b) = (isASCII a \<and> isASCII b)"
  "isASCII (rev a) = isASCII a"
  by (auto simp: isASCII_def)

lemma isASCII_subset: "set a \<subseteq> set b \<Longrightarrow> isASCII b \<Longrightarrow> isASCII a"
  by (auto simp: isASCII_def)

lemma isASCII_dropWhile: "isASCII s \<Longrightarrow> isASCII (dropWhile P s)"
  using set_dropWhileD [of _ P s] by (auto simp: isASCII_def)

lemma isASCII_asciiTrim: "isASCII s \<Longrightarrow> isASCII (asciiTrim s)"
  by (simp add: asciiTrim_def isASCII_dropWhile)

lemma isASCII_asciiUpper: "isASCII s \<Longrightarrow> isASCII (asciiUpper s)"
  unfolding isASCII_def asciiUpper_def by (auto simp: of_char_upper_char)

lemma ToUpper_ascii: "isASCII s \<Longrightarrow> ToUpper s = asciiUpper s"
  by (simp add: ToUpper_def)

lemma hd_dropWhile_ascii:
  assumes "isASCII s" "dropWhile P s \<noteq> []"
  shows "\<not> 128 \<le> (of_char (hd (dropWhile P s)) :: nat)"
proof -
  have "hd (dropWhile P s) \<in> set (dropWhile P s)" using assms(2) by simp
  then have "hd (dropWhile P s) \<in> set s" by (rule set_dropWhileD)
  then show ?thesis using assms(1) by (auto simp: isASCII_def)
qed

lemma TrimSpace_ascii:
  assumes "isASCII s"
  shows "TrimSpace s = asciiTrim s"
proof -
  let ?a = "dropWhile isSpace s"
  let ?b = "dropWhile isSpace (rev ?a)"
  have a: "\<not> (?a \<noteq> [] \<and> 128 \<le> (of_char (hd ?a) :: nat))"
    using hd_dropWhile_ascii [OF assms] by blast
  have "isASCII (rev ?a)" using assms by (simp add: isASCII_dropWhile)
  then have b: "\<not> (?b \<noteq> [] \<and> 128 \<le> (of_char (hd ?b) :: nat))"
    using hd_dropWhile_ascii [of "rev ?a" isSpace] by blast
  show ?thesis
    unfolding TrimSpace_def Let_def asciiTrim_def by (simp only: a b if_False)
qed

lemma elems_bridge:
  "isASCII s \<Longrightarrow> ToUpper (TrimSpace s) = asciiUpper (asciiTrim s)"
  by (simp add: TrimSpace_ascii ToUpper_ascii isASCII_asciiTrim)

lemma isASCII_Split: "isASCII s \<Longrightarrow> e \<in> set (Split s c) \<Longrightarrow> isASCII e"
proof (induction s arbitrary: e)
  case Nil
  then show ?case by simp
next
  case (Cons x xs)
  obtain y ys where sp: "Split xs c = y # ys" by (cases "Split xs c") simp_all
  have ih: "isASCII y" "\<And>z. z \<in> set ys \<Longrightarrow> isASCII z"
    using Cons.IH Cons.prems(1) sp by simp_all
  show ?case using Cons.prems sp ih by (auto split: if_splits)
qed

lemma isASCII_Join: "\<forall>e\<in>set xs. isASCII e \<Longrightarrow> isASCII (Join xs ''.'')"
  by (induction xs "''.''" rule: Join.induct) simp_all

lemma normalizeTableName_cases:
  assumes asc: "isASCII s"
  shows "normalizeTableName s =
     (if count_list s CHR ''.'' = 0 \<or> count_list s CHR ''.'' = 1
        then Inr (removeBrackets (last (Split (asciiUpper (asciiTrim s)) CHR ''.'')))
      else if count_list s CHR ''.'' = 2
        then (if removeBrackets (Split (asciiUpper (asciiTrim s)) CHR ''.'' ! 0) = ''BRS''
              then Inr (removeBrackets (Split (asciiUpper (asciiTrim s)) CHR ''.'' ! 2))
              else Inr (Join (map removeBrackets (Split (asciiUpper (asciiTrim s)) CHR ''.'')) ''.''))
      else Inl (UnhandledTableNameFormat s))"
proof -
  let ?e = "Split (asciiUpper (asciiTrim s)) CHR ''.''"
  have len: "length ?e = Suc (count_list s CHR ''.'')" by (rule length_elems)
  have l: "?e ! (length ?e - 1) = last ?e"
    by (simp add: last_conv_nth)
  have n2: "map removeBrackets ?e ! 2 = removeBrackets (?e ! 2)" if "count_list s CHR ''.'' = 2"
    using that len by simp
  have n0: "map removeBrackets ?e ! 0 = removeBrackets (?e ! 0)"
    using len by simp
  show ?thesis
    unfolding normalizeTableName_def Let_def elems_bridge [OF asc] l n0
    using len n2 by auto
qed

lemma dropWhile_append_stop:
  "\<not> P x \<Longrightarrow> dropWhile P (a @ x # r) = dropWhile P a @ x # r"
  by (induction a) auto

lemma asciiTrim_three:
  "asciiTrim (a @ CHR ''.'' # b @ CHR ''.'' # c) =
     dropWhile isSpace a @ CHR ''.'' # b @ CHR ''.'' # rev (dropWhile isSpace (rev c))"
proof -
  have 1: "dropWhile isSpace (a @ CHR ''.'' # b @ CHR ''.'' # c) =
      dropWhile isSpace a @ CHR ''.'' # b @ CHR ''.'' # c"
    by (rule dropWhile_append_stop) simp
  have 2: "rev (dropWhile isSpace a @ CHR ''.'' # b @ CHR ''.'' # c) =
      rev c @ CHR ''.'' # (rev b @ CHR ''.'' # rev (dropWhile isSpace a))"
    by simp
  have 3: "dropWhile isSpace (rev c @ CHR ''.'' # (rev b @ CHR ''.'' # rev (dropWhile isSpace a))) =
      dropWhile isSpace (rev c) @ CHR ''.'' # (rev b @ CHR ''.'' # rev (dropWhile isSpace a))"
    by (rule dropWhile_append_stop) simp
  show ?thesis
    unfolding asciiTrim_def 1 2 3 by simp
qed

lemma dot_eq_upper_char [simp]: "(CHR ''.'' = upper_char c) = (c = CHR ''.'')"
  using upper_char_dot [of c] by (simp only: eq_commute [of "CHR ''.''"])

lemma dot_in_asciiUpper [simp]: "(CHR ''.'' \<in> set (asciiUpper s)) = (CHR ''.'' \<in> set s)"
  by (induction s) (auto simp: asciiUpper_Cons)

lemma Split_three:
  assumes "CHR ''.'' \<notin> set a" "CHR ''.'' \<notin> set b" "CHR ''.'' \<notin> set c"
  shows "Split (a @ CHR ''.'' # b @ CHR ''.'' # c) CHR ''.'' = [a, b, c]"
  using assms by (simp add: Split_append_sep Split_no_sep)

lemma elems_three:
  assumes "CHR ''.'' \<notin> set a" "CHR ''.'' \<notin> set b" "CHR ''.'' \<notin> set c"
  shows "Split (asciiUpper (asciiTrim (a @ CHR ''.'' # b @ CHR ''.'' # c))) CHR ''.'' =
     [asciiUpper (dropWhile isSpace a), asciiUpper b, asciiUpper (rev (dropWhile isSpace (rev c)))]"
proof -
  have a': "CHR ''.'' \<notin> set (dropWhile isSpace a)"
    using assms(1) set_dropWhileD by fast
  have "CHR ''.'' \<notin> set (dropWhile isSpace (rev c))"
    using assms(3) set_dropWhileD [of "CHR ''.''" isSpace "rev c"] by auto
  then have c': "CHR ''.'' \<notin> set (rev (dropWhile isSpace (rev c)))" by simp
  show ?thesis
    unfolding asciiTrim_three Split_asciiUpper_dot
    by (simp only: Split_three [OF a' assms(2) c'] list.map)
qed

lemma removeBrackets_take_drop:
  "\<exists>i j. removeBrackets s = drop i (take j s)"
proof -
  have 1: "\<exists>j. TrimSuffix s '']'' = take j s"
    unfolding TrimSuffix_def by (metis take_all order_refl)
  then obtain j where j: "TrimSuffix s '']'' = take j s" ..
  have "\<exists>i. TrimPrefix (take j s) ''['' = drop i (take j s)"
    unfolding TrimPrefix_def by (metis drop0)
  then show ?thesis unfolding removeBrackets_def j by blast
qed

lemma set_removeBrackets: "set (removeBrackets s) \<subseteq> set s"
proof -
  obtain i j where "removeBrackets s = drop i (take j s)"
    using removeBrackets_take_drop [of s] by blast
  then show ?thesis
    using set_drop_subset [of i "take j s"] set_take_subset [of j s] by auto
qed

lemma asciiUpper_removeBrackets:
  assumes "asciiUpper s = s"
  shows "asciiUpper (removeBrackets s) = removeBrackets s"
proof -
  obtain i j where r: "removeBrackets s = drop i (take j s)"
    using removeBrackets_take_drop [of s] by blast
  show ?thesis unfolding r by (simp add: asciiUpper_drop asciiUpper_take assms)
qed

lemma asciiUpper_Join:
  "(\<forall>e\<in>set xs. asciiUpper e = e) \<Longrightarrow> asciiUpper (Join xs ''.'') = Join xs ''.''"
proof (induction xs "''.''" rule: Join.induct)
  case 1
  then show ?case by simp
next
  case (2 x)
  then show ?case by simp
next
  case (3 x y ys)
  have "upper_char CHR ''.'' = CHR ''.''" by (simp add: upper_char_def)
  then show ?case using 3 by (simp add: asciiUpper_Cons)
qed

lemma elems_upper:
  "e \<in> set (Split (asciiUpper s) CHR ''.'') \<Longrightarrow> asciiUpper e = e"
  unfolding Split_asciiUpper_dot by auto

lemma normalizeTableName_upper:
  assumes asc: "isASCII s" and "normalizeTableName s = Inr k"
  shows "asciiUpper k = k"
proof -
  let ?e = "Split (asciiUpper (asciiTrim s)) CHR ''.''"
  have up: "\<And>e. e \<in> set ?e \<Longrightarrow> asciiUpper (removeBrackets e) = removeBrackets e"
    by (rule asciiUpper_removeBrackets) (rule elems_upper)
  have len: "length ?e = Suc (count_list s CHR ''.'')" by (rule length_elems)
  have ne: "?e \<noteq> []" by simp
  consider (a) "k = removeBrackets (last ?e)" | (b) "count_list s CHR ''.'' = 2" "k = removeBrackets (?e ! 2)"
    | (c) "k = Join (map removeBrackets ?e) ''.''"
    using assms(2) unfolding normalizeTableName_cases [OF asc] by (auto split: if_splits)
  then show ?thesis
  proof cases
    case a
    then show ?thesis using up [of "last ?e"] ne by simp
  next
    case b
    then have "?e ! 2 \<in> set ?e" using len by simp
    then show ?thesis using up b by simp
  next
    case c
    have "\<forall>e\<in>set (map removeBrackets ?e). asciiUpper e = e" using up by auto
    then show ?thesis unfolding c by (rule asciiUpper_Join)
  qed
qed


lemma isASCII_removeBrackets: "isASCII s \<Longrightarrow> isASCII (removeBrackets s)"
  using set_removeBrackets [of s] by (rule isASCII_subset)

lemma normalizeTableName_key_ascii:
  assumes asc: "isASCII s" and "normalizeTableName s = Inr k"
  shows "isASCII k"
proof -
  let ?e = "Split (asciiUpper (asciiTrim s)) CHR ''.''"
  have "isASCII (asciiUpper (asciiTrim s))"
    using asc by (simp add: isASCII_asciiUpper isASCII_asciiTrim)
  then have el: "\<And>e. e \<in> set ?e \<Longrightarrow> isASCII (removeBrackets e)"
    using isASCII_Split isASCII_removeBrackets by blast
  have len: "length ?e = Suc (count_list s CHR ''.'')" by (rule length_elems)
  have ne: "?e \<noteq> []" by simp
  consider (a) "k = removeBrackets (last ?e)" | (b) "count_list s CHR ''.'' = 2" "k = removeBrackets (?e ! 2)"
    | (c) "k = Join (map removeBrackets ?e) ''.''"
    using assms(2) unfolding normalizeTableName_cases [OF asc] by (auto split: if_splits)
  then show ?thesis
  proof cases
    case a
    then show ?thesis using el [of "last ?e"] ne by simp
  next
    case b
    then have "?e ! 2 \<in> set ?e" using len by simp
    then show ?thesis using el b by simp
  next
    case c
    have "\<forall>e\<in>set (map removeBrackets ?e). isASCII e" using el by auto
    then show ?thesis unfolding c by (rule isASCII_Join)
  qed
qed

lemma normalizeTableName_ToUpper_key:
  assumes "isASCII s" and "normalizeTableName s = Inr k"
  shows "ToUpper k = k"
  using normalizeTableName_key_ascii [OF assms] normalizeTableName_upper [OF assms]
  by (simp add: ToUpper_ascii)


lemma tablesLoop_sound:
  "t \<in> set (tablesLoop wl al seen ts) \<Longrightarrow>
     t \<in> set ts \<and> \<not> HasPrefix t ''#'' \<and> ToUpper t \<notin> al \<and> ToUpper t \<notin> seen
       \<and> (Contains t ''.'' \<or> ToUpper t \<in> wl)"
proof (induction ts arbitrary: seen)
  case Nil
  then show ?case by simp
next
  case (Cons h ts)
  then show ?case by (auto split: if_splits)
qed

lemma tablesLoop_distinct: "distinct (map ToUpper (tablesLoop wl al seen ts))"
proof (induction ts arbitrary: seen)
  case Nil
  then show ?case by simp
next
  case (Cons h ts)
  have "ToUpper t \<noteq> ToUpper h"
    if "t \<in> set (tablesLoop wl al (insert (ToUpper h) seen) ts)" for t
    using tablesLoop_sound [OF that] by simp
  then have "ToUpper h \<notin> ToUpper ` set (tablesLoop wl al (insert (ToUpper h) seen) ts)"
    by (metis imageE)
  then show ?case using Cons by simp
qed

lemma tablesLoop_complete:
  assumes "distinct ts" "\<forall>u\<in>set ts. ToUpper u = u" "t \<in> set ts"
    "\<not> HasPrefix t ''#''" "ToUpper t \<notin> al" "ToUpper t \<notin> seen"
    "Contains t ''.'' \<or> ToUpper t \<in> wl"
  shows "t \<in> set (tablesLoop wl al seen ts)"
  using assms
proof (induction ts arbitrary: seen)
  case Nil
  then show ?case by simp
next
  case (Cons h ts)
  show ?case
  proof (cases "h = t")
    case True
    then show ?thesis using Cons.prems by auto
  next
    case False
    then have mem: "t \<in> set ts" using Cons.prems by simp
    have "ToUpper t \<noteq> ToUpper h" using Cons.prems False by simp
    then have "ToUpper t \<notin> insert (ToUpper h) seen" using Cons.prems by simp
    then have "t \<in> set (tablesLoop wl al (insert (ToUpper h) seen) ts)"
      "t \<in> set (tablesLoop wl al seen ts)"
      using Cons.IH Cons.prems mem by auto
    then show ?thesis by simp
  qed
qed

lemma EnterSimple_id_fields [simp]:
  "Tables (EnterSimple_id pk info x) = Tables info"
  "Aliases (EnterSimple_id pk info x) = Aliases info"
  by (simp_all add: EnterSimple_id_def Let_def)

lemma EnterConstant_fields [simp]:
  "Tables (EnterConstant pk info x) = Tables info"
  "Aliases (EnterConstant pk info x) = Aliases info"
  by (simp_all add: EnterConstant_def Let_def)

lemma EnterTable_name_fields:
  assumes "EnterTable_name info x = Inr info'"
  shows "\<exists>n. normalizeTableName (TrimSpace x) = Inr n
           \<and> Tables info' = (if n = [] then Tables info else insert n (Tables info))
           \<and> Aliases info' = Aliases info"
proof (cases "normalizeTableName (TrimSpace x)")
  case (Inl f)
  then show ?thesis using assms by (simp add: EnterTable_name_def)
next
  case (Inr n)
  then show ?thesis using assms by (cases "n = []") (auto simp: EnterTable_name_def)
qed

lemma EnterTable_alias_fields:
  assumes "EnterTable_alias info x = Inr info'"
  shows "\<exists>n. normalizeTableName (TrimSpace x) = Inr n
           \<and> Aliases info' = (if n = [] then Aliases info else insert (ToUpper n) (Aliases info))
           \<and> Tables info' = Tables info"
proof (cases "normalizeTableName (TrimSpace x)")
  case (Inl f)
  then show ?thesis using assms by (simp add: EnterTable_alias_def)
next
  case (Inr n)
  then show ?thesis using assms by (cases "n = []") (auto simp: EnterTable_alias_def)
qed

lemma enter_Tables:
  assumes "enter pk info e = Inr info'"
  shows "Tables info' = Tables info \<union>
    {n. n \<noteq> [] \<and> (\<exists>x. e = Table_name x \<and> normalizeTableName (TrimSpace x) = Inr n)}"
proof (cases e)
  case (Table_name x)
  then have "EnterTable_name info x = Inr info'" using assms by (simp add: enter_def)
  from EnterTable_name_fields [OF this] show ?thesis using Table_name
    by (auto split: if_splits)
next
  case (Simple_id x)
  then show ?thesis using assms by (auto simp: enter_def)
next
  case (Constant x)
  then show ?thesis using assms by (auto simp: enter_def)
next
  case (Table_alias x)
  then have "EnterTable_alias info x = Inr info'" using assms by (simp add: enter_def)
  from EnterTable_alias_fields [OF this] show ?thesis using Table_alias
    by (auto split: if_splits)
qed

lemma enter_Aliases:
  assumes "enter pk info e = Inr info'"
  shows "Aliases info' = Aliases info \<union>
    {ToUpper n | n. n \<noteq> [] \<and> (\<exists>x. e = Table_alias x \<and> normalizeTableName (TrimSpace x) = Inr n)}"
proof (cases e)
  case (Table_name x)
  then have "EnterTable_name info x = Inr info'" using assms by (simp add: enter_def)
  from EnterTable_name_fields [OF this] show ?thesis using Table_name
    by (auto split: if_splits)
next
  case (Simple_id x)
  then show ?thesis using assms by (auto simp: enter_def)
next
  case (Constant x)
  then show ?thesis using assms by (auto simp: enter_def)
next
  case (Table_alias x)
  then have "EnterTable_alias info x = Inr info'" using assms by (simp add: enter_def)
  from EnterTable_alias_fields [OF this] show ?thesis using Table_alias
    by (auto split: if_splits)
qed

lemma walk_Tables:
  "walk pk info es = Inr info' \<Longrightarrow>
     Tables info' = Tables info \<union>
       {n. n \<noteq> [] \<and> (\<exists>x. Table_name x \<in> set es \<and> normalizeTableName (TrimSpace x) = Inr n)}"
proof (induction es arbitrary: info)
  case Nil
  then show ?case by simp
next
  case (Cons e es)
  from Cons.prems obtain mid where m: "enter pk info e = Inr mid" and w: "walk pk mid es = Inr info'"
    by (auto split: sum.splits)
  show ?case unfolding Cons.IH [OF w] enter_Tables [OF m] by auto
qed

lemma walk_Aliases:
  "walk pk info es = Inr info' \<Longrightarrow>
     Aliases info' = Aliases info \<union>
       {ToUpper n | n. n \<noteq> [] \<and> (\<exists>x. Table_alias x \<in> set es \<and> normalizeTableName (TrimSpace x) = Inr n)}"
proof (induction es arbitrary: info)
  case Nil
  then show ?case by simp
next
  case (Cons e es)
  from Cons.prems obtain mid where m: "enter pk info e = Inr mid" and w: "walk pk mid es = Inr info'"
    by (auto split: sum.splits)
  show ?case unfolding Cons.IH [OF w] enter_Aliases [OF m] by auto
qed

lemma walk_Tables_upper:
  assumes "walk pk NewSprocInfo es = Inr info" "t \<in> Tables info"
    and asc: "\<forall>x. Table_name x \<in> set es \<longrightarrow> isASCII x"
  shows "ToUpper t = t \<and> t \<noteq> [] \<and> isASCII t"
proof -
  from assms(2) obtain x where x: "Table_name x \<in> set es"
    "normalizeTableName (TrimSpace x) = Inr t" "t \<noteq> []"
    unfolding walk_Tables [OF assms(1)] by (auto simp: NewSprocInfo_def)
  have "isASCII x" using asc x(1) by blast
  then have "isASCII (TrimSpace x)" by (simp add: TrimSpace_ascii isASCII_asciiTrim)
  then show ?thesis
    using normalizeTableName_ToUpper_key [OF _ x(2)] normalizeTableName_key_ascii [OF _ x(2)] x(3)
    by simp
qed

lemma length3E:
  assumes "length xs = 3"
  obtains a b c where "xs = [a, b, c]"
proof -
  from assms obtain a ys where 1: "xs = a # ys" "length ys = 2"
    by (cases xs) auto
  then obtain b zs where 2: "ys = b # zs" "length zs = 1" by (cases ys) auto
  then obtain c where "zs = [c]" by (cases zs) auto
  with 1 2 that show ?thesis by simp
qed


lemma key_shape:
  assumes asc: "isASCII s" and "normalizeTableName s = Inr k"
  shows "CHR ''.'' \<notin> set k \<or> (\<exists>a b c. Split k CHR ''.'' = [a, b, c] \<and> a \<noteq> ''BRS'')"
proof -
  let ?e = "Split (asciiUpper (asciiTrim s)) CHR ''.''"
  have len: "length ?e = Suc (count_list s CHR ''.'')" by (rule length_elems)
  have free: "\<And>e. e \<in> set ?e \<Longrightarrow> CHR ''.'' \<notin> set (removeBrackets e)"
    using Split_segments_free set_removeBrackets by blast
  have ne: "?e \<noteq> []" by simp
  consider (a) "k = removeBrackets (last ?e)"
    | (b) "count_list s CHR ''.'' = 2" "k = removeBrackets (?e ! 2)"
    | (c) "count_list s CHR ''.'' = 2" "removeBrackets (?e ! 0) \<noteq> ''BRS''"
          "k = Join (map removeBrackets ?e) ''.''"
    using assms(2) unfolding normalizeTableName_cases [OF asc] by (auto split: if_splits)
  then show ?thesis
  proof cases
    case a
    have "CHR ''.'' \<notin> set k" unfolding a using free [of "last ?e"] ne by simp
    then show ?thesis by simp
  next
    case b
    have "?e ! 2 \<in> set ?e" using b(1) len by simp
    then have "CHR ''.'' \<notin> set k" unfolding b(2) by (rule free)
    then show ?thesis by simp
  next
    case c
    have "length ?e = 3" using c(1) len by simp
    then obtain x y z where e: "?e = [x, y, z]" by (rule length3E)
    have f: "CHR ''.'' \<notin> set (removeBrackets x)" "CHR ''.'' \<notin> set (removeBrackets y)"
      "CHR ''.'' \<notin> set (removeBrackets z)"
      using free [of x] free [of y] free [of z] e by simp_all
    have k: "k = removeBrackets x @ CHR ''.'' # removeBrackets y @ CHR ''.'' # removeBrackets z"
      unfolding c(3) e by simp
    have "Split k CHR ''.'' = [removeBrackets x, removeBrackets y, removeBrackets z]"
      unfolding k by (rule Split_three [OF f])
    moreover have "removeBrackets x \<noteq> ''BRS''" using c(2) e by simp
    ultimately show ?thesis by blast
  qed
qed

lemma normalizeTableName_fixed:
  assumes asc: "isASCII k" and up: "asciiUpper k = k" and tr: "asciiTrim k = k"
    and br: "\<forall>e\<in>set (Split k CHR ''.''). removeBrackets e = e"
    and sh: "CHR ''.'' \<notin> set k \<or> (\<exists>a b c. Split k CHR ''.'' = [a, b, c] \<and> a \<noteq> ''BRS'')"
  shows "normalizeTableName k = Inr k"
proof -
  have e: "Split (ToUpper (TrimSpace k)) CHR ''.'' = Split k CHR ''.''"
    by (simp only: elems_bridge [OF asc] tr up)
  from sh show ?thesis
  proof
    assume "CHR ''.'' \<notin> set k"
    then have s: "Split k CHR ''.'' = [k]" by (rule Split_no_sep)
    have "removeBrackets k = k" using br s by simp
    then show ?thesis unfolding normalizeTableName_def e s by (simp add: Let_def)
  next
    assume "\<exists>a b c. Split k CHR ''.'' = [a, b, c] \<and> a \<noteq> ''BRS''"
    then obtain a b c where s: "Split k CHR ''.'' = [a, b, c]" and a: "a \<noteq> ''BRS''" by blast
    have r: "removeBrackets a = a" "removeBrackets b = b" "removeBrackets c = c"
      using br s by simp_all
    have "Join [a, b, c] ''.'' = k" using Join_Split [of k "CHR ''.''"] s by simp
    then show ?thesis unfolding normalizeTableName_def e s using a r by (simp add: Let_def)
  qed
qed

lemma TrimSuffix_no_suffix: "\<not> HasSuffix s p \<Longrightarrow> TrimSuffix s p = s"
  by (simp add: TrimSuffix_def)

lemma handleSprocDetails_rows:
  assumes "handleSprocDetails parser wl pk rT rP tasks = Inr (E, T, P)"
    and "n \<in> fst ` (set E \<union> set T \<union> set P)"
  shows "\<exists>s\<in>set tasks. key s = n \<and> parseSproc parser wl pk rT rP s \<noteq> Inr ([], [], [])"
  using assms
proof (induction tasks arbitrary: E T P)
  case Nil
  then show ?case by simp
next
  case (Cons s rest)
  from Cons.prems(1) obtain er tb pf where p: "parseSproc parser wl pk rT rP s = Inr (er, tb, pf)"
    by (auto split: sum.splits)
  from Cons.prems(1) p obtain E' T' P' where
    r: "handleSprocDetails parser wl pk rT rP rest = Inr (E', T', P')"
    by (auto split: sum.splits)
  have eq: "E = map (Pair (key s)) er @ E'" "T = map (Pair (key s)) tb @ T'"
    "P = map (Pair (key s)) pf @ P'"
    using Cons.prems(1) p r by simp_all
  show ?case
  proof (cases "n \<in> fst ` (set E' \<union> set T' \<union> set P')")
    case True
    from Cons.IH [OF r True] show ?thesis by auto
  next
    case False
    then have "n \<in> fst ` (set (map (Pair (key s)) er) \<union> set (map (Pair (key s)) tb)
         \<union> set (map (Pair (key s)) pf))"
      using Cons.prems(2) unfolding eq by auto
    then have "n = key s \<and> (er \<noteq> [] \<or> tb \<noteq> [] \<or> pf \<noteq> [])" by auto
    then show ?thesis using p by auto
  qed
qed

lemma ExitTsql_file_tables_set:
  assumes "walk pk NewSprocInfo es = Inr info"
    and "enumerates (rT (Tables info)) (Tables info)"
    and asc: "\<forall>x. Table_name x \<in> set es \<longrightarrow> isASCII x"
  shows "set (fst (ExitTsql_file wl rT rP info)) =
     {t \<in> Tables info. \<not> HasPrefix t ''#'' \<and> ToUpper t \<notin> Aliases info
        \<and> (Contains t ''.'' \<or> ToUpper t \<in> wl)}"
proof -
  have d: "distinct (rT (Tables info))" and s: "set (rT (Tables info)) = Tables info"
    using assms(2) by (simp_all add: enumerates_def)
  have up: "\<forall>u\<in>set (rT (Tables info)). ToUpper u = u"
    unfolding s using walk_Tables_upper [OF assms(1) _ asc] by blast
  have 1: "t \<in> {t \<in> Tables info. \<not> HasPrefix t ''#'' \<and> ToUpper t \<notin> Aliases info
        \<and> (Contains t ''.'' \<or> ToUpper t \<in> wl)}"
    if "t \<in> set (tablesLoop wl (Aliases info) {} (rT (Tables info)))" for t
    using tablesLoop_sound [OF that] s by simp
  have 2: "t \<in> set (tablesLoop wl (Aliases info) {} (rT (Tables info)))"
    if "t \<in> {t \<in> Tables info. \<not> HasPrefix t ''#'' \<and> ToUpper t \<notin> Aliases info
        \<and> (Contains t ''.'' \<or> ToUpper t \<in> wl)}" for t
    by (rule tablesLoop_complete [OF d up]) (use that s in auto)
  show ?thesis unfolding ExitTsql_file_def fst_conv using 1 2 by blast
qed

lemma ExitTsql_file_order_independent:
  assumes "walk pk NewSprocInfo es = Inr info"
    and "enumerates (rT (Tables info)) (Tables info)"
    and "enumerates (rT' (Tables info)) (Tables info)"
    and "enumerates (rP (Portfolios info)) (Portfolios info)"
    and "enumerates (rP' (Portfolios info)) (Portfolios info)"
    and asc: "\<forall>x. Table_name x \<in> set es \<longrightarrow> isASCII x"
  shows "set (fst (ExitTsql_file wl rT rP info)) = set (fst (ExitTsql_file wl rT' rP' info))"
    and "set (snd (ExitTsql_file wl rT rP info)) = set (snd (ExitTsql_file wl rT' rP' info))"
proof -
  show "set (fst (ExitTsql_file wl rT rP info)) = set (fst (ExitTsql_file wl rT' rP' info))"
    unfolding ExitTsql_file_tables_set [of pk es info rT, OF assms(1) assms(2) asc]
      ExitTsql_file_tables_set [of pk es info rT', OF assms(1) assms(3) asc] ..
  show "set (snd (ExitTsql_file wl rT rP info)) = set (snd (ExitTsql_file wl rT' rP' info))"
    using assms(4) assms(5) by (simp add: ExitTsql_file_def enumerates_def)
qed

lemma dropWhile_same_length:
  assumes "length (dropWhile P xs) = length xs"
  shows "dropWhile P xs = xs"
proof (cases xs)
  case Nil
  then show ?thesis by simp
next
  case (Cons a list)
  show ?thesis
  proof (cases "P a")
    case True
    have "length (dropWhile P list) \<le> length list" by (rule length_dropWhile_le)
    then show ?thesis using assms Cons True by simp
  next
    case False
    then show ?thesis using Cons by simp
  qed
qed

lemma asciiTrim_same_length:
  assumes "length s \<le> length (asciiTrim s)"
  shows "asciiTrim s = s"
proof -
  have 1: "length (rev (dropWhile isSpace s)) \<le> length s"
    using length_dropWhile_le [of isSpace s] by simp
  have 2: "length (dropWhile isSpace (rev (dropWhile isSpace s))) \<le> length (rev (dropWhile isSpace s))"
    by (rule length_dropWhile_le)
  have 3: "length (asciiTrim s) = length (dropWhile isSpace (rev (dropWhile isSpace s)))"
    by (simp add: asciiTrim_def)
  have a: "length (dropWhile isSpace s) = length s" using assms 1 2 3 by simp
  then have b: "dropWhile isSpace s = s" by (rule dropWhile_same_length)
  have "length (dropWhile isSpace (rev s)) = length (rev s)" using assms 2 3 b by simp
  then have "dropWhile isSpace (rev s) = rev s" by (rule dropWhile_same_length)
  then show ?thesis by (simp add: asciiTrim_def b)
qed

lemma length_removeBrackets_le: "length (removeBrackets s) \<le> length s"
  by (simp add: removeBrackets_def TrimPrefix_def TrimSuffix_def)

lemma removeBrackets_same_length:
  assumes "length s \<le> length (removeBrackets s)"
  shows "removeBrackets s = s"
proof (cases "HasSuffix s '']''")
  case True
  then have "s \<noteq> []" by (auto simp: HasSuffix_def)
  then have "length (TrimSuffix s '']'') < length s" using True by (simp add: TrimSuffix_def)
  moreover have "length (removeBrackets s) \<le> length (TrimSuffix s '']'')"
    by (simp add: removeBrackets_def TrimPrefix_def)
  ultimately show ?thesis using assms by simp
next
  case False
  then have t: "TrimSuffix s '']'' = s" by (simp add: TrimSuffix_def)
  show ?thesis
  proof (cases "HasPrefix s ''[''")
    case True
    then have "s \<noteq> []" by (auto simp: HasPrefix_def)
    then have "length (removeBrackets s) < length s"
      using True by (simp add: removeBrackets_def t TrimPrefix_def)
    then show ?thesis using assms by simp
  next
    case False
    then show ?thesis by (simp add: removeBrackets_def t TrimPrefix_def)
  qed
qed

lemma dropWhile_isSpace_dot_free:
  "CHR ''.'' \<notin> set a \<Longrightarrow> CHR ''.'' \<notin> set (dropWhile isSpace a)"
  using set_dropWhileD by fast

lemma normalizeTableName_fixed_only_if:
  assumes asc: "isASCII k" and up: "asciiUpper k = k" and fx: "normalizeTableName k = Inr k"
    and sh: "CHR ''.'' \<notin> set k \<or> (\<exists>a b c. Split k CHR ''.'' = [a, b, c] \<and> a \<noteq> ''BRS'')"
  shows "asciiTrim k = k \<and> (\<forall>e\<in>set (Split k CHR ''.''). removeBrackets e = e)"
proof -
  have ut: "asciiUpper (asciiTrim k) = asciiTrim k"
    by (simp only: asciiUpper_asciiTrim up)
  from sh show ?thesis
  proof
    assume nd: "CHR ''.'' \<notin> set k"
    have "CHR ''.'' \<notin> set (asciiTrim k)"
      using nd set_dropWhileD [of "CHR ''.''" isSpace] unfolding asciiTrim_def
      by (metis set_rev)
    then have s: "Split (asciiTrim k) CHR ''.'' = [asciiTrim k]" by (rule Split_no_sep)
    have "normalizeTableName k = Inr (removeBrackets (asciiTrim k))"
      unfolding normalizeTableName_def elems_bridge [OF asc] ut s by (simp add: Let_def)
    then have e: "removeBrackets (asciiTrim k) = k" using fx by simp
    have "length k \<le> length (asciiTrim k)"
      using length_removeBrackets_le [of "asciiTrim k"] unfolding e .
    then have t: "asciiTrim k = k" by (rule asciiTrim_same_length)
    have "removeBrackets k = k" using e unfolding t .
    then show ?thesis using t Split_no_sep [OF nd] by simp
  next
    assume "\<exists>a b c. Split k CHR ''.'' = [a, b, c] \<and> a \<noteq> ''BRS''"
    then obtain a b c where s: "Split k CHR ''.'' = [a, b, c]" by blast
    have fr: "CHR ''.'' \<notin> set a" "CHR ''.'' \<notin> set b" "CHR ''.'' \<notin> set c"
      using Split_segments_free [of _ k "CHR ''.''"] unfolding s by simp_all
    have k: "k = a @ CHR ''.'' # b @ CHR ''.'' # c"
      using Join_Split [of k "CHR ''.''"] unfolding s by simp
    let ?a = "dropWhile isSpace a" and ?c = "rev (dropWhile isSpace (rev c))"
    have tk: "asciiTrim k = ?a @ CHR ''.'' # b @ CHR ''.'' # ?c"
      unfolding k by (rule asciiTrim_three)
    have fa: "CHR ''.'' \<notin> set ?a" using fr(1) by (rule dropWhile_isSpace_dot_free)
    have "CHR ''.'' \<notin> set (dropWhile isSpace (rev c))"
      by (rule dropWhile_isSpace_dot_free) (use fr(3) in simp)
    then have fc: "CHR ''.'' \<notin> set ?c" by simp
    have st: "Split (asciiTrim k) CHR ''.'' = [?a, b, ?c]"
      unfolding tk by (rule Split_three [OF fa fr(2) fc])
    have n: "normalizeTableName k =
        (if removeBrackets ?a = ''BRS'' then Inr (removeBrackets ?c)
         else Inr (removeBrackets ?a @ CHR ''.'' # removeBrackets b @ CHR ''.'' # removeBrackets ?c))"
      unfolding normalizeTableName_def elems_bridge [OF asc] ut st by (simp add: Let_def)
    have "CHR ''.'' \<notin> set (removeBrackets ?c)" using fc set_removeBrackets by blast
    moreover have "CHR ''.'' \<in> set k" unfolding k by simp
    ultimately have "removeBrackets ?c \<noteq> k" by metis
    then have nb: "removeBrackets ?a \<noteq> ''BRS''" using n fx by auto
    then have e: "removeBrackets ?a @ CHR ''.'' # removeBrackets b @ CHR ''.'' # removeBrackets ?c = k"
      using n fx by simp
    have f': "CHR ''.'' \<notin> set (removeBrackets ?a)" "CHR ''.'' \<notin> set (removeBrackets b)"
      "CHR ''.'' \<notin> set (removeBrackets ?c)"
      using fa fr(2) fc set_removeBrackets by blast+
    have "Split k CHR ''.'' = [removeBrackets ?a, removeBrackets b, removeBrackets ?c]"
      unfolding e [symmetric] by (rule Split_three [OF f'])
    then have eqs: "removeBrackets ?a = a" "removeBrackets b = b" "removeBrackets ?c = c"
      unfolding s by simp_all
    have "length a \<le> length ?a"
      using length_removeBrackets_le [of ?a] unfolding eqs(1) .
    then have "length ?a = length a" using length_dropWhile_le [of isSpace a] by simp
    then have a: "?a = a" by (rule dropWhile_same_length)
    have "length c \<le> length ?c"
      using length_removeBrackets_le [of ?c] unfolding eqs(3) .
    then have "length (dropWhile isSpace (rev c)) = length (rev c)"
      using length_dropWhile_le [of isSpace "rev c"] by simp
    then have "dropWhile isSpace (rev c) = rev c" by (rule dropWhile_same_length)
    then have c: "?c = c" by simp
    have "asciiTrim k = a @ CHR ''.'' # b @ CHR ''.'' # c" using tk unfolding a c .
    then have "asciiTrim k = k" using k by simp
    moreover have "removeBrackets a = a" "removeBrackets c = c"
      using eqs(1) eqs(3) unfolding a c by simp_all
    ultimately show ?thesis using eqs(2) s by simp
  qed
qed




lemma HasPrefix_hash: "HasPrefix k ''#'' = (\<exists>w. k = CHR ''#'' # w)"
  by (cases k) (auto simp: HasPrefix_def)

lemma not_isSpace_hash [simp]: "\<not> isSpace CHR ''#''"
  by (simp add: isSpace_def)

lemma upper_char_hash [simp]: "upper_char CHR ''#'' = CHR ''#''"
  by (simp add: upper_char_def)

lemma removeBrackets_hash: "\<exists>w'. removeBrackets (CHR ''#'' # w) = CHR ''#'' # w'"
proof (cases "HasSuffix (CHR ''#'' # w) '']''")
  case True
  then have "w \<noteq> []" by (auto simp: HasSuffix_def suffix_def)
  then have "TrimSuffix (CHR ''#'' # w) '']'' = CHR ''#'' # butlast w"
    using True by (cases w) (simp_all add: TrimSuffix_def butlast_conv_take)
  then show ?thesis by (simp add: removeBrackets_def TrimPrefix_def HasPrefix_def)
next
  case False
  then show ?thesis by (simp add: removeBrackets_def TrimSuffix_def TrimPrefix_def HasPrefix_def)
qed

lemma temp_segment_key:
  assumes "HasPrefix c ''#''"
  shows "HasPrefix (removeBrackets (asciiUpper (rev (dropWhile isSpace (rev c))))) ''#''"
proof -
  obtain w where c: "c = CHR ''#'' # w" using assms by (auto simp: HasPrefix_hash)
  from trim_right_keeps_head [of isSpace "CHR ''#''" w]
  obtain z where "rev (dropWhile isSpace (rev c)) = CHR ''#'' # z" unfolding c by auto
  then have "asciiUpper (rev (dropWhile isSpace (rev c))) = CHR ''#'' # asciiUpper z"
    by (simp add: asciiUpper_Cons)
  then show ?thesis using removeBrackets_hash [of "asciiUpper z"] by (auto simp: HasPrefix_hash)
qed

lemma asciiTrim_one:
  assumes "HasPrefix c ''#''"
  shows "asciiTrim c = rev (dropWhile isSpace (rev c))"
proof -
  obtain w where c: "c = CHR ''#'' # w" using assms by (auto simp: HasPrefix_hash)
  show ?thesis unfolding asciiTrim_def c by simp
qed

lemma asciiTrim_two:
  "asciiTrim (b @ CHR ''.'' # c) = dropWhile isSpace b @ CHR ''.'' # rev (dropWhile isSpace (rev c))"
proof -
  have 1: "dropWhile isSpace (b @ CHR ''.'' # c) = dropWhile isSpace b @ CHR ''.'' # c"
    by (rule dropWhile_append_stop) simp
  have 2: "rev (dropWhile isSpace b @ CHR ''.'' # c) = rev c @ CHR ''.'' # rev (dropWhile isSpace b)"
    by simp
  have 3: "dropWhile isSpace (rev c @ CHR ''.'' # rev (dropWhile isSpace b)) =
      dropWhile isSpace (rev c) @ CHR ''.'' # rev (dropWhile isSpace b)"
    by (rule dropWhile_append_stop) simp
  show ?thesis unfolding asciiTrim_def 1 2 3 by simp
qed

lemma temp_table_keys:
  assumes asc: "isASCII a" "isASCII b" "isASCII c"
    and free: "CHR ''.'' \<notin> set a" "CHR ''.'' \<notin> set b" "CHR ''.'' \<notin> set c"
    and tmp: "HasPrefix c ''#''"
  shows "normalizeTableName c = Inr (removeBrackets (asciiUpper (rev (dropWhile isSpace (rev c)))))"
    and "normalizeTableName (b @ ''.'' @ c)
           = Inr (removeBrackets (asciiUpper (rev (dropWhile isSpace (rev c)))))"
    and "removeBrackets (asciiUpper (dropWhile isSpace a)) = ''BRS'' \<Longrightarrow>
         normalizeTableName (a @ ''.'' @ b @ ''.'' @ c)
           = Inr (removeBrackets (asciiUpper (rev (dropWhile isSpace (rev c)))))"
proof -
  let ?c = "rev (dropWhile isSpace (rev c))"
  have fc: "CHR ''.'' \<notin> set ?c"
    using free(3) set_dropWhileD [of "CHR ''.''" isSpace "rev c"] by auto
  have fb: "CHR ''.'' \<notin> set (dropWhile isSpace b)"
    using free(2) by (rule dropWhile_isSpace_dot_free)
  have 1: "Split (asciiUpper (asciiTrim c)) CHR ''.'' = [asciiUpper ?c]"
    unfolding asciiTrim_one [OF tmp] using fc by (simp add: Split_no_sep)
  show "normalizeTableName c = Inr (removeBrackets (asciiUpper ?c))"
    unfolding normalizeTableName_def elems_bridge [OF asc(3)] 1 by (simp add: Let_def)
  have a2: "isASCII (b @ ''.'' @ c)" using asc by simp
  have "Split (asciiUpper (asciiTrim (b @ CHR ''.'' # c))) CHR ''.''
      = map asciiUpper (Split (dropWhile isSpace b @ CHR ''.'' # ?c) CHR ''.'')"
    unfolding asciiTrim_two by (rule Split_asciiUpper_dot)
  also have "\<dots> = [asciiUpper (dropWhile isSpace b), asciiUpper ?c]"
    using fb fc by (simp add: Split_append_sep Split_no_sep)
  finally have 2: "Split (asciiUpper (asciiTrim (b @ ''.'' @ c))) CHR ''.''
      = [asciiUpper (dropWhile isSpace b), asciiUpper ?c]" by simp
  show "normalizeTableName (b @ ''.'' @ c) = Inr (removeBrackets (asciiUpper ?c))"
    unfolding normalizeTableName_def elems_bridge [OF a2] 2 by (simp add: Let_def)
  have a3: "isASCII (a @ ''.'' @ b @ ''.'' @ c)" using asc by simp
  have 3: "Split (asciiUpper (asciiTrim (a @ ''.'' @ b @ ''.'' @ c))) CHR ''.'' =
     [asciiUpper (dropWhile isSpace a), asciiUpper b, asciiUpper ?c]"
    using elems_three [OF free] by simp
  show "normalizeTableName (a @ ''.'' @ b @ ''.'' @ c) = Inr (removeBrackets (asciiUpper ?c))"
    if "removeBrackets (asciiUpper (dropWhile isSpace a)) = ''BRS''"
    unfolding normalizeTableName_def elems_bridge [OF a3] 3 using that by (simp add: Let_def)
qed

lemma normalizeTableName_TrimSpace:
  assumes "isASCII x" "normalizeTableName x = Inr k"
  shows "normalizeTableName (TrimSpace x) = Inr k"
proof -
  have "ToUpper (TrimSpace (TrimSpace x)) = ToUpper (TrimSpace x)"
    using assms(1) by (simp add: TrimSpace_ascii isASCII_asciiTrim)
  then show ?thesis
    using assms(2) unfolding normalizeTableName_def Let_def by (auto split: if_splits)
qed



















section \<open>The claims\<close>

subsection \<open>C1: references to another database\<close>



subsection \<open>C2: temp tables\<close>

text \<open>
  Claim C2, as amended. For every routine, every whitelist, every catalog of portfolio codes
  and every order of ranging over the tables, no table sent down the tables channel has a
  key starting with the temp-table marker \<open>#\<close>. A table-name node whose ASCII text is a
  temp table \<open>#\<dots>\<close> alone, or after a schema, or after a schema and a first segment that
  is \<open>BRS\<close> once trimmed, upper-cased and rid of its brackets, gets a key that starts with
  \<open>#\<close>; so no such reference is reported.
\<close>

theorem temp_key_never_reported:
  assumes "walk portfolioKeys NewSprocInfo events = Inr info"
  shows "(\<forall>t\<in>set (fst (ExitTsql_file whitelist rangeT rangeP info)). \<not> HasPrefix t ''#'')
       \<and> (\<forall>a b c x. isASCII a \<and> isASCII b \<and> isASCII c
              \<and> CHR ''.'' \<notin> set a \<union> set b \<union> set c \<and> HasPrefix c ''#''
              \<and> (x = c \<or> x = b @ ''.'' @ c
                  \<or> (x = a @ ''.'' @ b @ ''.'' @ c
                      \<and> removeBrackets (ToUpper (dropWhile isSpace a)) = ''BRS''))
            \<longrightarrow> (\<exists>k. normalizeTableName (TrimSpace x) = Inr k \<and> HasPrefix k ''#''))
       \<and> (\<forall>x k. Table_name x \<in> set events \<and> normalizeTableName (TrimSpace x) = Inr k
              \<and> HasPrefix k ''#''
            \<longrightarrow> k \<notin> set (fst (ExitTsql_file whitelist rangeT rangeP info)))"
proof -
  have 1: "\<forall>t\<in>set (fst (ExitTsql_file whitelist rangeT rangeP info)). \<not> HasPrefix t ''#''"
    unfolding ExitTsql_file_def fst_conv using tablesLoop_sound by blast
  have 2: "\<exists>k. normalizeTableName (TrimSpace x) = Inr k \<and> HasPrefix k ''#''"
    if h: "isASCII a \<and> isASCII b \<and> isASCII c
              \<and> CHR ''.'' \<notin> set a \<union> set b \<union> set c \<and> HasPrefix c ''#''
              \<and> (x = c \<or> x = b @ ''.'' @ c
                  \<or> (x = a @ ''.'' @ b @ ''.'' @ c
                      \<and> removeBrackets (ToUpper (dropWhile isSpace a)) = ''BRS''))"
    for a b c x
  proof -
    let ?k = "removeBrackets (asciiUpper (rev (dropWhile isSpace (rev c))))"
    have asc: "isASCII a" "isASCII b" "isASCII c" using h by simp_all
    have free: "CHR ''.'' \<notin> set a" "CHR ''.'' \<notin> set b" "CHR ''.'' \<notin> set c" using h by auto
    have tmp: "HasPrefix c ''#''" using h by simp
    have ua: "ToUpper (dropWhile isSpace a) = asciiUpper (dropWhile isSpace a)"
      using asc(1) by (simp add: ToUpper_ascii isASCII_dropWhile)
    note keys = temp_table_keys [OF asc free tmp]
    have "isASCII x \<and> normalizeTableName x = Inr ?k"
      using h asc keys(1) keys(2) keys(3) unfolding ua by auto
    then have "normalizeTableName (TrimSpace x) = Inr ?k"
      using normalizeTableName_TrimSpace by blast
    then show ?thesis using temp_segment_key [OF tmp] by blast
  qed
  show ?thesis using 1 2 by blast
qed

text \<open>
  A routine naming \<open>#tmp\<close> in these three ways and a whitelisted table \<open>Foo\<close>, with
  \<open>#TMP\<close> itself on the whitelist: only \<open>FOO\<close> is sent.
\<close>

theorem temp_key_never_reported_witness:
  "walk {} NewSprocInfo [Table_name ''#tmp'', Table_name ''dbo.#tmp'',
        Table_name ''BRS.dbo.#tmp'', Table_name ''Foo''] =
      Inr \<lparr>Name = [], Tables = {''#TMP'', ''FOO''}, Aliases = {}, Portfolios = {}\<rparr>
   \<and> enumerates [''#TMP'', ''FOO''] {''#TMP'', ''FOO''}
   \<and> fst (ExitTsql_file {''FOO'', ''#TMP''} (\<lambda>S. [''#TMP'', ''FOO'']) (\<lambda>S. [])
        \<lparr>Name = [], Tables = {''#TMP'', ''FOO''}, Aliases = {}, Portfolios = {}\<rparr>) = [''FOO'']
   \<and> \<not> HasPrefix ''FOO'' ''#''
   \<and> normalizeTableName (TrimSpace ''dbo.#tmp'') = Inr ''#TMP''
   \<and> HasPrefix ''#TMP'' ''#''
   \<and> ''#TMP'' \<notin> set [''FOO'']"
proof -
  let ?info = "\<lparr>Name = [], Tables = {''#TMP'', ''FOO''}, Aliases = {}, Portfolios = {}\<rparr>"
  let ?events = "[Table_name ''#tmp'', Table_name ''dbo.#tmp'',
        Table_name ''BRS.dbo.#tmp'', Table_name ''Foo'']"
  have w: "walk {} NewSprocInfo ?events = Inr ?info" by code_simp
  have en: "enumerates [''#TMP'', ''FOO''] {''#TMP'', ''FOO''}" by code_simp
  have out: "fst (ExitTsql_file {''FOO'', ''#TMP''} (\<lambda>S. [''#TMP'', ''FOO'']) (\<lambda>S. []) ?info)
       = [''FOO'']" by code_simp
  have n: "normalizeTableName (TrimSpace ''dbo.#tmp'') = Inr ''#TMP''" by code_simp
  have p: "HasPrefix ''#TMP'' ''#''" by code_simp
  note t = temp_key_never_reported [OF w, of "{''FOO'', ''#TMP''}" "\<lambda>S. [''#TMP'', ''FOO'']"
      "\<lambda>S. []", unfolded out]
  have 1: "\<not> HasPrefix ''FOO'' ''#''" using t [THEN conjunct1] by simp
  have h: "isASCII [] \<and> isASCII ''dbo'' \<and> isASCII ''#tmp''
      \<and> CHR ''.'' \<notin> set [] \<union> set ''dbo'' \<union> set ''#tmp'' \<and> HasPrefix ''#tmp'' ''#''
      \<and> (''dbo.#tmp'' = ''#tmp'' \<or> ''dbo.#tmp'' = ''dbo'' @ ''.'' @ ''#tmp''
          \<or> (''dbo.#tmp'' = [] @ ''.'' @ ''dbo'' @ ''.'' @ ''#tmp''
              \<and> removeBrackets (ToUpper (dropWhile isSpace [])) = ''BRS''))"
    by (simp add: HasPrefix_def)
  from t [THEN conjunct2, THEN conjunct1, rule_format, OF h]
  have 2: "HasPrefix ''#TMP'' ''#''" unfolding n by simp
  have m: "Table_name ''dbo.#tmp'' \<in> set ?events" by simp
  have 3: "''#TMP'' \<notin> set [''FOO'']"
    using t [THEN conjunct2, THEN conjunct2, rule_format, of "''dbo.#tmp''" "''#TMP''"] m n 2
    by blast
  show ?thesis using w en out 1 n 2 3 by (intro conjI)
qed

text \<open>
  Claim C2 as it was stated is to hold ``regardless of how the reference is qualified''. A temp
  table reached through another database keeps the database in its key, which then starts
  with the database name and holds a dot: \<open>tempdb..#t\<close> is reported, with an empty whitelist.
\<close>

theorem qualified_temp_table_reported:
  "walk {} NewSprocInfo [Table_name ''tempdb..#t''] =
      Inr \<lparr>Name = [], Tables = {''TEMPDB..#T''}, Aliases = {}, Portfolios = {}\<rparr>
   \<and> enumerates [''TEMPDB..#T''] {''TEMPDB..#T''}
   \<and> fst (ExitTsql_file {} (\<lambda>S. [''TEMPDB..#T'']) (\<lambda>S. [])
        \<lparr>Name = [], Tables = {''TEMPDB..#T''}, Aliases = {}, Portfolios = {}\<rparr>) = [''TEMPDB..#T'']"
  by code_simp

subsection \<open>C3: when the normaliser ends the run\<close>

text \<open>
  On an ASCII input \<open>normalizeTableName\<close> takes the fatal path exactly when the trimmed,
  upper-cased input splits into more than three dot-separated segments, that is when the input holds three
  dots or more; a crafted four-segment name is fatal. \<open>strings.Split\<close> returns at least one
  segment, so the branch for zero segments, which logs ``missing table name'', is never
  taken and \<open>MissingTableName\<close> is never the result.
\<close>

lemma normalizeTableName_fatal_iff:
  assumes asc: "isASCII s"
  shows "isl (normalizeTableName s) = (3 \<le> count_list s CHR ''.'')
   \<and> (normalizeTableName s = Inl (UnhandledTableNameFormat s))
       = (3 < length (Split (ToUpper (TrimSpace s)) CHR ''.''))
   \<and> normalizeTableName s \<noteq> Inl MissingTableName
   \<and> 0 < length (Split (ToUpper (TrimSpace s)) CHR ''.'')
   \<and> normalizeTableName ''a.b.c.d'' = Inl (UnhandledTableNameFormat ''a.b.c.d'')"
proof -
  have a: "isl (normalizeTableName s) = (3 \<le> count_list s CHR ''.'')"
    unfolding normalizeTableName_cases [OF asc] by auto
  have b: "(normalizeTableName s = Inl (UnhandledTableNameFormat s))
       = (3 < length (Split (ToUpper (TrimSpace s)) CHR ''.''))"
    unfolding normalizeTableName_cases [OF asc] elems_bridge [OF asc] length_elems by auto
  have c: "normalizeTableName s \<noteq> Inl MissingTableName"
    unfolding normalizeTableName_cases [OF asc] by auto
  have d: "0 < length (Split (ToUpper (TrimSpace s)) CHR ''.'')"
    unfolding elems_bridge [OF asc] length_elems by simp
  have e: "normalizeTableName ''a.b.c.d'' = Inl (UnhandledTableNameFormat ''a.b.c.d'')"
    by code_simp
  show ?thesis using a b c d e by (intro conjI)
qed

text \<open>
  Claim C3 says that \<open>normalizeTableName\<close> ends the run exactly when its input has no
  segment or more than three, and in particular that an empty identifier reaching it is
  fatal. The code at the empty identifier: the empty string splits into one empty segment,
  the branch for one or two segments runs, and the empty key is returned.
\<close>

theorem normalizeTableName_empty_not_fatal:
  "normalizeTableName [] = Inr [] \<and> \<not> isl (normalizeTableName [])"
  by code_simp

subsection \<open>C4: portfolio codes in string literals\<close>

text \<open>
  Claim C4, as amended. Let \<open>id0\<close> be the literal, trimmed and without its quotes, and
  \<open>id1\<close> be \<open>id0\<close> without a final \<open>%\<close>. \<open>EnterConstant\<close> adds to the routine's
  portfolio codes exactly these catalog codes: \<open>id0\<close> itself; if \<open>id0\<close> ends in \<open>%\<close>, every
  code with the prefix \<open>id1\<close>; and if \<open>id1\<close> starts with \<open>%\<close>, every code with the suffix
  \<open>id1\<close> less that \<open>%\<close>. Both wildcard rules can apply to one literal. With the catalog
  \<open>AAA, AAB, ZZZ\<close> the literal \<open>AA%\<close> gives \<open>AAA, AAB\<close>; with the catalog
  \<open>AAZZ, BZZ, ZZZ\<close> the literal \<open>%ZZ\<close> gives all three codes, each of which ends in \<open>ZZ\<close>,
  and the literal \<open>ZZZ\<close> gives \<open>ZZZ\<close>.
\<close>

theorem EnterConstant_matches:
  "Portfolios (EnterConstant portfolioKeys info text) =
     (let id0 = TrimSuffix (TrimPrefix (TrimSpace text) [CHR 0x27]) [CHR 0x27];
          id1 = TrimSuffix id0 ''%''
      in Portfolios info
         \<union> {k \<in> portfolioKeys. k = id0}
         \<union> {k \<in> portfolioKeys. HasSuffix id0 ''%'' \<and> HasPrefix k id1}
         \<union> {k \<in> portfolioKeys. HasPrefix id1 ''%'' \<and> HasSuffix k (TrimPrefix id1 ''%'')})
   \<and> Portfolios (EnterConstant {''AAA'', ''AAB'', ''ZZZ''} NewSprocInfo ''AA%'') = {''AAA'', ''AAB''}
   \<and> Portfolios (EnterConstant {''AAZZ'', ''BZZ'', ''ZZZ''} NewSprocInfo ''%ZZ'')
       = {''AAZZ'', ''BZZ'', ''ZZZ''}
   \<and> Portfolios (EnterConstant {''AAZZ'', ''BZZ'', ''ZZZ''} NewSprocInfo ''ZZZ'') = {''ZZZ''}
   \<and> Portfolios (EnterConstant {''%ZZA'', ''BZZ'', ''AZZ%'', ''Q''} NewSprocInfo ''%ZZ%'')
       = {''%ZZA'', ''BZZ''}"
proof (intro conjI)
  let ?id0 = "TrimSuffix (TrimPrefix (TrimSpace text) [CHR 0x27]) [CHR 0x27]"
  have id1: "(if HasSuffix ?id0 ''%'' then TrimSuffix ?id0 ''%'' else ?id0) = TrimSuffix ?id0 ''%''"
    by (simp add: TrimSuffix_no_suffix)
  show "Portfolios (EnterConstant portfolioKeys info text) =
     (let id0 = ?id0; id1 = TrimSuffix id0 ''%''
      in Portfolios info
         \<union> {k \<in> portfolioKeys. k = id0}
         \<union> {k \<in> portfolioKeys. HasSuffix id0 ''%'' \<and> HasPrefix k id1}
         \<union> {k \<in> portfolioKeys. HasPrefix id1 ''%'' \<and> HasSuffix k (TrimPrefix id1 ''%'')})"
    unfolding EnterConstant_def Let_def id1 by auto
  show "Portfolios (EnterConstant {''AAA'', ''AAB'', ''ZZZ''} NewSprocInfo ''AA%'') = {''AAA'', ''AAB''}"
    by code_simp
  show "Portfolios (EnterConstant {''AAZZ'', ''BZZ'', ''ZZZ''} NewSprocInfo ''%ZZ'')
       = {''AAZZ'', ''BZZ'', ''ZZZ''}"
    by code_simp
  show "Portfolios (EnterConstant {''AAZZ'', ''BZZ'', ''ZZZ''} NewSprocInfo ''ZZZ'') = {''ZZZ''}"
    by code_simp
  show "Portfolios (EnterConstant {''%ZZA'', ''BZZ'', ''AZZ%'', ''Q''} NewSprocInfo ''%ZZ%'')
       = {''%ZZA'', ''BZZ''}"
    by code_simp
qed

text \<open>
  Claim C4 as it was stated gives \<open>AAZZ, BZZ\<close> for the literal \<open>%ZZ\<close>, and lets a literal
  that starts with \<open>%\<close> match every code ending in the rest of the literal. \<open>ZZZ\<close> is
  matched as well; and the prefix-wildcard block works on what the suffix-wildcard block
  left, so that for \<open>%ZZ%\<close> the code \<open>AZZ%\<close>, which ends in \<open>ZZ%\<close>, is not matched.
\<close>

theorem EnterConstant_suffix_rule_counterexample:
  "Portfolios (EnterConstant {''AAZZ'', ''BZZ'', ''ZZZ''} NewSprocInfo ''%ZZ'') \<noteq> {''AAZZ'', ''BZZ''}
   \<and> ''ZZZ'' \<in> Portfolios (EnterConstant {''AAZZ'', ''BZZ'', ''ZZZ''} NewSprocInfo ''%ZZ'')
   \<and> HasPrefix ''%ZZ%'' ''%''
   \<and> HasSuffix ''AZZ%'' (TrimPrefix ''%ZZ%'' ''%'')
   \<and> ''AZZ%'' \<notin> Portfolios (EnterConstant {''AZZ%''} NewSprocInfo ''%ZZ%'')"
  by code_simp

subsection \<open>C5: three-segment names\<close>

text \<open>
  Claim C5. With the home database \<open>BRS\<close>, \<open>normalizeTableName\<close> maps \<open>BRS.dbo.Foo\<close> to
  \<open>FOO\<close> and \<open>OTHER.dbo.Foo\<close> to \<open>OTHER.DBO.FOO\<close>. In general an ASCII name of three
  segments \<open>a.b.c\<close> is trimmed at both ends and upper-cased, each segment loses its brackets, and the
  key is the third segment alone when the first one is \<open>BRS\<close>, the three segments rejoined
  with dots otherwise; and for every input, ASCII or not, whose trimmed upper-case form
  splits into three segments, the key is made of those segments in this way.
\<close>

theorem normalizeTableName_three_segments:
  "normalizeTableName ''BRS.dbo.Foo'' = Inr ''FOO''
   \<and> normalizeTableName ''OTHER.dbo.Foo'' = Inr ''OTHER.DBO.FOO''
   \<and> (\<forall>a b c. isASCII a \<and> isASCII b \<and> isASCII c \<and> CHR ''.'' \<notin> set a \<union> set b \<union> set c \<longrightarrow>
         normalizeTableName (a @ ''.'' @ b @ ''.'' @ c) =
           Inr (let a' = removeBrackets (ToUpper (dropWhile isSpace a));
                    b' = removeBrackets (ToUpper b);
                    c' = removeBrackets (ToUpper (rev (dropWhile isSpace (rev c))))
                in if a' = ''BRS'' then c' else a' @ ''.'' @ b' @ ''.'' @ c'))
   \<and> (\<forall>s x y z. Split (ToUpper (TrimSpace s)) CHR ''.'' = [x, y, z] \<longrightarrow>
         normalizeTableName s =
           Inr (if removeBrackets x = ''BRS'' then removeBrackets z
                else removeBrackets x @ ''.'' @ removeBrackets y @ ''.'' @ removeBrackets z))"
proof (intro conjI allI impI)
  show "normalizeTableName ''BRS.dbo.Foo'' = Inr ''FOO''" by code_simp
  show "normalizeTableName ''OTHER.dbo.Foo'' = Inr ''OTHER.DBO.FOO''" by code_simp
next
  fix a b c :: string
  assume h: "isASCII a \<and> isASCII b \<and> isASCII c \<and> CHR ''.'' \<notin> set a \<union> set b \<union> set c"
  then have d: "CHR ''.'' \<notin> set a" "CHR ''.'' \<notin> set b" "CHR ''.'' \<notin> set c" by auto
  have asc: "isASCII (a @ ''.'' @ b @ ''.'' @ c)" using h by simp
  have u: "ToUpper (dropWhile isSpace a) = asciiUpper (dropWhile isSpace a)"
    "ToUpper b = asciiUpper b"
    "ToUpper (rev (dropWhile isSpace (rev c))) = asciiUpper (rev (dropWhile isSpace (rev c)))"
    using h by (simp_all add: ToUpper_ascii isASCII_dropWhile)
  have e: "Split (asciiUpper (asciiTrim (a @ ''.'' @ b @ ''.'' @ c))) CHR ''.'' =
     [asciiUpper (dropWhile isSpace a), asciiUpper b, asciiUpper (rev (dropWhile isSpace (rev c)))]"
    using elems_three [OF d] by simp
  show "normalizeTableName (a @ ''.'' @ b @ ''.'' @ c) =
           Inr (let a' = removeBrackets (ToUpper (dropWhile isSpace a));
                    b' = removeBrackets (ToUpper b);
                    c' = removeBrackets (ToUpper (rev (dropWhile isSpace (rev c))))
                in if a' = ''BRS'' then c' else a' @ ''.'' @ b' @ ''.'' @ c')"
    unfolding normalizeTableName_def elems_bridge [OF asc] e u by (simp add: Let_def)
next
  fix s x y z :: string
  assume "Split (ToUpper (TrimSpace s)) CHR ''.'' = [x, y, z]"
  then show "normalizeTableName s =
           Inr (if removeBrackets x = ''BRS'' then removeBrackets z
                else removeBrackets x @ ''.'' @ removeBrackets y @ ''.'' @ removeBrackets z)"
    by (simp add: normalizeTableName_def Let_def)
qed

text \<open>The general case at \<open>[brs].dbo.[Foo]\<close> and at a name of another database.\<close>

theorem normalizeTableName_three_segments_witness:
  "normalizeTableName (''[brs]'' @ ''.'' @ ''dbo'' @ ''.'' @ ''[Foo]'') = Inr ''FOO''
   \<and> normalizeTableName (''[x] '' @ ''.'' @ ''dbo'' @ ''.'' @ ''[Foo]'') = Inr ''X] .DBO.FOO''"
proof -
  have h1: "isASCII ''[brs]'' \<and> isASCII ''dbo'' \<and> isASCII ''[Foo]''
      \<and> CHR ''.'' \<notin> set ''[brs]'' \<union> set ''dbo'' \<union> set ''[Foo]''" by simp
  have h2: "isASCII ''[x] '' \<and> isASCII ''dbo'' \<and> isASCII ''[Foo]''
      \<and> CHR ''.'' \<notin> set ''[x] '' \<union> set ''dbo'' \<union> set ''[Foo]''" by simp
  have e1: "(let a' = removeBrackets (ToUpper (dropWhile isSpace ''[brs]''));
                    b' = removeBrackets (ToUpper ''dbo'');
                    c' = removeBrackets (ToUpper (rev (dropWhile isSpace (rev ''[Foo]''))))
                in if a' = ''BRS'' then c' else a' @ ''.'' @ b' @ ''.'' @ c') = ''FOO''"
    by code_simp
  have e2: "(let a' = removeBrackets (ToUpper (dropWhile isSpace ''[x] ''));
                    b' = removeBrackets (ToUpper ''dbo'');
                    c' = removeBrackets (ToUpper (rev (dropWhile isSpace (rev ''[Foo]''))))
                in if a' = ''BRS'' then c' else a' @ ''.'' @ b' @ ''.'' @ c') = ''X] .DBO.FOO''"
    by code_simp
  note t = normalizeTableName_three_segments [THEN conjunct2, THEN conjunct2, THEN conjunct1, rule_format]
  show ?thesis using t [OF h1] t [OF h2] unfolding e1 e2 by (intro conjI)
qed

subsection \<open>C6: no duplicates, no aliases\<close>

text \<open>
  Claim C6. For every routine, ASCII or not, and every order of ranging over its tables,
  the tables sent down the channel are pairwise different, also when compared through
  \<open>strings.ToUpper\<close>, and none of them equals the normalised name of a table alias that occurs
  in the routine, nor does its upper-case form equal that of such a name. (An alias whose
  name normalises to the empty string is not kept; no table sent is the empty string.)
\<close>

theorem tables_distinct_and_no_alias:
  assumes "walk portfolioKeys NewSprocInfo events = Inr info"
    and "enumerates (rangeT (Tables info)) (Tables info)"
  shows "distinct (map ToUpper (fst (ExitTsql_file whitelist rangeT rangeP info)))
       \<and> distinct (fst (ExitTsql_file whitelist rangeT rangeP info))
       \<and> (\<forall>a n. Table_alias a \<in> set events \<and> normalizeTableName (TrimSpace a) = Inr n
            \<longrightarrow> (\<forall>t\<in>set (fst (ExitTsql_file whitelist rangeT rangeP info)).
                   t \<noteq> n \<and> (n \<noteq> [] \<longrightarrow> ToUpper t \<noteq> ToUpper n)))"
proof (intro conjI allI impI ballI)
  let ?out = "tablesLoop whitelist (Aliases info) {} (rangeT (Tables info))"
  have out: "fst (ExitTsql_file whitelist rangeT rangeP info) = ?out"
    by (simp add: ExitTsql_file_def)
  show d: "distinct (map ToUpper (fst (ExitTsql_file whitelist rangeT rangeP info)))"
    unfolding out by (rule tablesLoop_distinct)
  then show "distinct (fst (ExitTsql_file whitelist rangeT rangeP info))"
    by (simp add: distinct_map)
  fix a n t
  assume h: "Table_alias a \<in> set events \<and> normalizeTableName (TrimSpace a) = Inr n"
    and t: "t \<in> set (fst (ExitTsql_file whitelist rangeT rangeP info))"
  from t have s: "t \<in> set (rangeT (Tables info))" "ToUpper t \<notin> Aliases info"
    unfolding out using tablesLoop_sound by blast+
  then have "t \<in> Tables info" using assms(2) by (simp add: enumerates_def)
  then have ne: "t \<noteq> []"
    unfolding walk_Tables [OF assms(1)] by (auto simp: NewSprocInfo_def)
  have up: "ToUpper t \<noteq> ToUpper n" if "n \<noteq> []"
  proof -
    have "ToUpper n \<in> Aliases info"
      unfolding walk_Aliases [OF assms(1)] using h that by auto
    then show ?thesis using s(2) by auto
  qed
  show "t \<noteq> n" using ne up by (cases "n = []") auto
  show "ToUpper t \<noteq> ToUpper n" if "n \<noteq> []" using up that .
qed

text \<open>
  A routine that names \<open>Foo\<close> three times and declares the alias \<open>f\<close>, which it also uses
  as a table name; both \<open>FOO\<close> and \<open>F\<close> are on the whitelist.
\<close>

theorem tables_distinct_and_no_alias_witness:
  "walk {} NewSprocInfo
      [Table_name ''Foo'', Table_alias ''f'', Table_name ''dbo.foo'', Table_name ''f'',
       Table_name ''[Foo]''] =
      Inr \<lparr>Name = [], Tables = {''FOO'', ''F''}, Aliases = {''F''}, Portfolios = {}\<rparr>
   \<and> enumerates [''F'', ''FOO''] {''FOO'', ''F''}
   \<and> fst (ExitTsql_file {''FOO'', ''F''} (\<lambda>S. [''F'', ''FOO'']) (\<lambda>S. [])
        \<lparr>Name = [], Tables = {''FOO'', ''F''}, Aliases = {''F''}, Portfolios = {}\<rparr>) = [''FOO'']
   \<and> distinct (map ToUpper [''FOO''])
   \<and> ToUpper ''FOO'' \<noteq> ToUpper ''F''"
proof -
  let ?info = "\<lparr>Name = [], Tables = {''FOO'', ''F''}, Aliases = {''F''}, Portfolios = {}\<rparr>"
  let ?events = "[Table_name ''Foo'', Table_alias ''f'', Table_name ''dbo.foo'', Table_name ''f'',
       Table_name ''[Foo]'']"
  have w: "walk {} NewSprocInfo ?events = Inr ?info"
    by code_simp
  have en: "enumerates ((\<lambda>S. [''F'', ''FOO'']) (Tables ?info)) (Tables ?info)"
    by code_simp
  have out: "fst (ExitTsql_file {''FOO'', ''F''} (\<lambda>S. [''F'', ''FOO'']) (\<lambda>S. []) ?info) = [''FOO'']"
    by code_simp
  have n: "normalizeTableName (TrimSpace ''f'') = Inr ''F''" by code_simp
  have m: "Table_alias ''f'' \<in> set ?events" by simp
  note t = tables_distinct_and_no_alias [OF w en, of "{''FOO'', ''F''}" "\<lambda>S. []", unfolded out]
  have 1: "distinct (map ToUpper [''FOO''])" using t by (rule conjunct1)
  have "\<forall>t\<in>set [''FOO'']. t \<noteq> ''F'' \<and> (''F'' \<noteq> [] \<longrightarrow> ToUpper t \<noteq> ToUpper ''F'')"
    using t [THEN conjunct2, THEN conjunct2, rule_format, of "''f''" "''F''"] m n by blast
  then have 2: "ToUpper ''FOO'' \<noteq> ToUpper ''F''" by simp
  have "enumerates [''F'', ''FOO''] {''FOO'', ''F''}" using en by simp
  then show ?thesis using w out 1 2 by (intro conjI)
qed

subsection \<open>C7: routines without source text\<close>




subsection \<open>C8: normalising a key again\<close>

text \<open>
  Claim C8, as amended. \<open>normalizeTableName\<close> returns a key it has produced from an ASCII
  input unchanged
  exactly when that key has no white space at either end and none of its dot-separated
  segments still loses a bracket to \<open>removeBrackets\<close>.
\<close>

theorem normalizeTableName_idempotent_on_stripped_keys:
  assumes "isASCII s" and "normalizeTableName s = Inr k"
  shows "(normalizeTableName k = Inr k) =
     (TrimSpace k = k \<and> (\<forall>e\<in>set (Split k CHR ''.''). removeBrackets e = e))"
proof -
  have ak: "isASCII k" using assms by (rule normalizeTableName_key_ascii)
  have up: "asciiUpper k = k" using assms by (rule normalizeTableName_upper)
  have sh: "CHR ''.'' \<notin> set k \<or> (\<exists>a b c. Split k CHR ''.'' = [a, b, c] \<and> a \<noteq> ''BRS'')"
    using assms by (rule key_shape)
  have tr: "TrimSpace k = asciiTrim k" using ak by (rule TrimSpace_ascii)
  show ?thesis
  proof
    assume "normalizeTableName k = Inr k"
    with ak up
    show "TrimSpace k = k \<and> (\<forall>e\<in>set (Split k CHR ''.''). removeBrackets e = e)"
      unfolding tr using sh by (rule normalizeTableName_fixed_only_if)
  next
    assume "TrimSpace k = k \<and> (\<forall>e\<in>set (Split k CHR ''.''). removeBrackets e = e)"
    then have "asciiTrim k = k" "\<forall>e\<in>set (Split k CHR ''.''). removeBrackets e = e"
      unfolding tr by simp_all
    with ak up show "normalizeTableName k = Inr k"
      using sh by (rule normalizeTableName_fixed)
  qed
qed

text \<open>The key of \<open>[Other].dbo.[Foo]\<close> is such a key.\<close>

theorem normalizeTableName_idempotent_on_stripped_keys_witness:
  "normalizeTableName ''[Other].dbo.[Foo]'' = Inr ''OTHER.DBO.FOO''
   \<and> TrimSpace ''OTHER.DBO.FOO'' = ''OTHER.DBO.FOO''
   \<and> Split ''OTHER.DBO.FOO'' CHR ''.'' = [''OTHER'', ''DBO'', ''FOO'']
   \<and> removeBrackets ''OTHER'' = ''OTHER'' \<and> removeBrackets ''DBO'' = ''DBO''
   \<and> removeBrackets ''FOO'' = ''FOO''
   \<and> normalizeTableName ''OTHER.DBO.FOO'' = Inr ''OTHER.DBO.FOO''"
proof -
  have a: "isASCII ''[Other].dbo.[Foo]''" by simp
  have n: "normalizeTableName ''[Other].dbo.[Foo]'' = Inr ''OTHER.DBO.FOO''" by code_simp
  have t: "TrimSpace ''OTHER.DBO.FOO'' = ''OTHER.DBO.FOO''" by code_simp
  have s: "Split ''OTHER.DBO.FOO'' CHR ''.'' = [''OTHER'', ''DBO'', ''FOO'']" by code_simp
  have r: "removeBrackets ''OTHER'' = ''OTHER''" "removeBrackets ''DBO'' = ''DBO''"
    "removeBrackets ''FOO'' = ''FOO''" by code_simp+
  have b: "\<forall>e\<in>set (Split ''OTHER.DBO.FOO'' CHR ''.''). removeBrackets e = e"
    unfolding s using r by simp
  have "normalizeTableName ''OTHER.DBO.FOO'' = Inr ''OTHER.DBO.FOO''"
    using normalizeTableName_idempotent_on_stripped_keys [OF a n] t b by blast
  then show ?thesis using n t s r by (intro conjI)
qed

text \<open>
  Claim C8 as it was stated holds for every input with a result. One call removes one pair
  of brackets and trims the input as a whole, not its segments: the key of \<open>[[a]]\<close> is
  \<open>[A]\<close>, whose key is \<open>A\<close>, and the key of \<open>x. y\<close> begins with a space that the second
  call trims.
\<close>

theorem normalizeTableName_not_idempotent:
  "normalizeTableName ''[[a]]'' = Inr ''[A]'' \<and> normalizeTableName ''[A]'' = Inr ''A''
   \<and> normalizeTableName ''x. y'' = Inr '' Y'' \<and> normalizeTableName '' Y'' = Inr ''Y''"
  by code_simp

subsection \<open>C9: the size of the pool\<close>



subsection \<open>C10: keys are upper case\<close>



end
